theory Spec2Isabelle
  imports Complex_Main
begin

section \<open>Python numbers\<close>

text \<open>
  The program computes with Python integers (unbounded, modelled as \<open>int\<close>) and Python
  floats (IEEE binary64). A float is modelled by the rational number it denotes, and
  every float operation of the source is the exact operation followed by the rounding
  \<open>rnd\<close>, a parameter of the model. The theorems below hold for every rounding that is
  monotone and leaves the numbers \<open>n / 2 ^ k\<close> with \<open>\<bar>n\<bar> \<le> 2 ^ 53\<close> unchanged. Rounding to
  the nearest binary64 value has both properties, and so has exact arithmetic
  (\<open>rnd = (\<lambda>x. x)\<close>), which the closed examples use on inputs where binary64 is exact
  or where the result is far from a rounding boundary.
\<close>

definition binary64_rounding :: "(rat \<Rightarrow> rat) \<Rightarrow> bool" where
  "binary64_rounding rnd \<longleftrightarrow>
     (\<forall>x y. x \<le> y \<longrightarrow> rnd x \<le> rnd y) \<and>
     (\<forall>n k. \<bar>n\<bar> \<le> 2 ^ 53 \<and> k \<le> 64 \<longrightarrow> rnd (of_int n / 2 ^ k) = of_int n / 2 ^ k)"

text \<open>\<open>int(x)\<close> on a float truncates toward zero.\<close>

definition py_int :: "rat \<Rightarrow> int" where
  "py_int x = (if 0 \<le> x then \<lfloor>x\<rfloor> else \<lceil>x\<rceil>)"

text \<open>\<open>str(n)\<close> on an integer: the decimal digits, with a minus sign when negative.\<close>

fun str_nat :: "nat \<Rightarrow> string" where
  "str_nat n =
     (if n < 10 then [''0123456789'' ! n]
      else str_nat (n div 10) @ [''0123456789'' ! (n mod 10)])"

declare str_nat.simps [simp del]

definition str :: "int \<Rightarrow> string" where
  "str n = (if n < 0 then CHR ''-'' # str_nat (nat (- n)) else str_nat (nat n))"

section \<open>Module constants\<close>

definition A4_WIDTH_PT :: "(rat \<Rightarrow> rat) \<Rightarrow> rat" where
  "A4_WIDTH_PT rnd = rnd (59528 / 100)"

definition A4_HEIGHT_PT :: "(rat \<Rightarrow> rat) \<Rightarrow> rat" where
  "A4_HEIGHT_PT rnd = rnd (84189 / 100)"

definition MARGIN_PT :: int where
  "MARGIN_PT = 30"

definition DPI :: int where
  "DPI = 300"

definition PT_PER_INCH :: int where
  "PT_PER_INCH = 72"

definition SCALE_FACTOR :: "(rat \<Rightarrow> rat) \<Rightarrow> rat" where
  "SCALE_FACTOR rnd = rnd (of_int DPI / of_int PT_PER_INCH)"

section \<open>The world outside the program\<close>

text \<open>
  What the program reads from its environment is a parameter: which font faces load
  (\<open>ImageFont.truetype\<close> raises \<open>IOError\<close> otherwise), the pixel size of the image behind a
  path (\<open>None\<close> when \<open>Image.open\<close> raises), which target sizes \<open>Image.resize\<close> accepts
  (\<open>ResizeError\<close> stands for what it raises otherwise), the bounding box the font gives a
  text, whether the temporary directory can be created, whether the document can be
  written, in which order the file system lists the entries of a directory (by a rank of
  the names), which entries \<open>unlink\<close> can remove (a directory cannot be unlinked) and whether
  an empty temporary directory can be removed. Python's \<open>IOError\<close> is \<open>OSError\<close>, and so are
  the exceptions of \<open>unlink\<close> and \<open>rmdir\<close>. The other calls into PIL and fpdf2 (a new canvas,
  pasting, drawing, saving a page, adding it to the document) are taken to succeed.
\<close>

datatype error = ValueError | ZeroDivisionError | OSError | ResizeError

type_synonym font = "string \<times> int"

record env =
  rounding :: "rat \<Rightarrow> rat"
  truetype :: "string \<Rightarrow> int \<Rightarrow> bool"
  image_size :: "string \<Rightarrow> (int \<times> int) option"
  resize_ok :: "int \<times> int \<Rightarrow> bool"
  textbbox :: "font \<Rightarrow> int \<times> int \<Rightarrow> string \<Rightarrow> int \<times> int \<times> int \<times> int"
  mkdir_ok :: bool
  output_ok :: bool
  glob_rank :: "string \<Rightarrow> nat"
  unlink_ok :: "string \<Rightarrow> bool"
  rmdir_ok :: bool

section \<open>combine_images_to_page\<close>

text \<open>
  The page canvas is the list of drawing operations applied to a white canvas of a given
  size, in order: an image pasted at a size and a position (resized from the file behind
  the path when the size differs from its own), a filled black rectangle, a white text in
  a font. The pixels are what PIL makes of these operations.
\<close>

datatype draw_op =
    Paste string "int \<times> int" "int \<times> int"
  | Rectangle "int \<times> int \<times> int \<times> int"
  | Text "int \<times> int" string font

record page_image =
  canvas_size :: "int \<times> int"
  canvas_ops :: "draw_op list"

subsection \<open>Page geometry (source lines 61 to 69)\<close>

definition page_width_pt :: "(rat \<Rightarrow> rat) \<Rightarrow> int" where
  "page_width_pt r = py_int (r (A4_WIDTH_PT r - of_int (2 * MARGIN_PT)))"

definition page_height_pt :: "(rat \<Rightarrow> rat) \<Rightarrow> int" where
  "page_height_pt r = py_int (r (A4_HEIGHT_PT r - of_int (2 * MARGIN_PT)))"

definition page_width_px :: "(rat \<Rightarrow> rat) \<Rightarrow> int" where
  "page_width_px r = py_int (r (of_int (page_width_pt r) * SCALE_FACTOR r))"

definition page_height_px :: "(rat \<Rightarrow> rat) \<Rightarrow> int" where
  "page_height_px r = py_int (r (of_int (page_height_pt r) * SCALE_FACTOR r))"

text \<open>\<open>//\<close> is floor division, as \<open>div\<close> on \<open>int\<close>; the composer raises when the divisor is 0.\<close>

definition img_max_width :: "(rat \<Rightarrow> rat) \<Rightarrow> int \<Rightarrow> int" where
  "img_max_width r cols = page_width_px r div cols"

definition img_max_height :: "(rat \<Rightarrow> rat) \<Rightarrow> int \<Rightarrow> int" where
  "img_max_height r rows = page_height_px r div rows"

subsection \<open>Font (source lines 76 to 94)\<close>

definition font_size_px :: "(rat \<Rightarrow> rat) \<Rightarrow> int \<Rightarrow> int" where
  "font_size_px r font_size = py_int (r (of_int font_size * SCALE_FACTOR r))"

definition font_candidates :: "string list" where
  "font_candidates =
     [''Helvetica.ttf'', ''Arial.ttf'', ''arial.ttf'', ''TImes New Roman.ttf'',
      ''DejaVuSans.ttf'']"

text \<open>The loop over the candidates: the first face that loads ends it.\<close>

fun load_font :: "env \<Rightarrow> int \<Rightarrow> string list \<Rightarrow> font option" where
  "load_font e sz [] = None"
| "load_font e sz (font_name # rest) =
     (if truetype e font_name sz then Some (font_name, sz) else load_font e sz rest)"

subsection \<open>Fitting an image into its cell (source lines 101 to 106)\<close>

definition scale :: "(rat \<Rightarrow> rat) \<Rightarrow> int \<Rightarrow> int \<Rightarrow> int \<Rightarrow> int \<Rightarrow> rat" where
  "scale r max_w max_h img_width img_height =
     (let scale_w = r (of_int max_w / of_int img_width);
          scale_h = r (of_int max_h / of_int img_height)
      in min (min scale_w scale_h) 1)"

definition new_width :: "(rat \<Rightarrow> rat) \<Rightarrow> int \<Rightarrow> int \<Rightarrow> int \<Rightarrow> int \<Rightarrow> int" where
  "new_width r max_w max_h img_width img_height =
     py_int (r (of_int img_width * scale r max_w max_h img_width img_height))"

definition new_height :: "(rat \<Rightarrow> rat) \<Rightarrow> int \<Rightarrow> int \<Rightarrow> int \<Rightarrow> int \<Rightarrow> int" where
  "new_height r max_w max_h img_width img_height =
     py_int (r (of_int img_height * scale r max_w max_h img_width img_height))"

subsection \<open>Grid position (source lines 112 to 122)\<close>

definition idx_in_page :: "int \<Rightarrow> int \<Rightarrow> nat \<Rightarrow> int" where
  "idx_in_page rows cols i = int i mod (rows * cols)"

definition cell_row :: "int \<Rightarrow> int \<Rightarrow> nat \<Rightarrow> int" where
  "cell_row rows cols i = idx_in_page rows cols i div cols"

definition cell_col :: "int \<Rightarrow> int \<Rightarrow> nat \<Rightarrow> int" where
  "cell_col rows cols i = idx_in_page rows cols i mod cols"

definition x_start :: "(rat \<Rightarrow> rat) \<Rightarrow> int \<Rightarrow> int \<Rightarrow> nat \<Rightarrow> int" where
  "x_start r rows cols i = cell_col rows cols i * img_max_width r cols"

definition y_start :: "(rat \<Rightarrow> rat) \<Rightarrow> int \<Rightarrow> int \<Rightarrow> nat \<Rightarrow> int" where
  "y_start r rows cols i = cell_row rows cols i * img_max_height r rows"

definition x_center :: "(rat \<Rightarrow> rat) \<Rightarrow> int \<Rightarrow> int \<Rightarrow> nat \<Rightarrow> int \<times> int \<Rightarrow> int" where
  "x_center r rows cols i sz =
     x_start r rows cols i +
     (img_max_width r cols -
      new_width r (img_max_width r cols) (img_max_height r rows) (fst sz) (snd sz)) div 2"

definition y_center :: "(rat \<Rightarrow> rat) \<Rightarrow> int \<Rightarrow> int \<Rightarrow> nat \<Rightarrow> int \<times> int \<Rightarrow> int" where
  "y_center r rows cols i sz =
     y_start r rows cols i +
     (img_max_height r rows -
      new_height r (img_max_width r cols) (img_max_height r rows) (fst sz) (snd sz)) div 2"

subsection \<open>Label (source lines 127 to 148)\<close>

definition label_text :: "int \<Rightarrow> string" where
  "label_text number = ''('' @ str number @ '')''"

definition padding_scale :: "(rat \<Rightarrow> rat) \<Rightarrow> int \<Rightarrow> int" where
  "padding_scale r padding = py_int (r (of_int padding * SCALE_FACTOR r))"

definition bg_padding :: "(rat \<Rightarrow> rat) \<Rightarrow> int" where
  "bg_padding r = py_int (r (2 * SCALE_FACTOR r))"

subsection \<open>The loop body and the loop (source lines 96 to 148)\<close>

text \<open>
  One turn of the loop, for the image at local index \<open>i\<close>: the three drawing operations
  it adds to the canvas, or the exception it raises: the image does not open, or a
  native dimension is 0 and the quotient of line 101 or 102 divides by zero, or the
  target size differs from the native one and \<open>Image.resize\<close> rejects it.
\<close>

definition draw_image ::
  "env \<Rightarrow> int \<Rightarrow> int \<Rightarrow> int \<Rightarrow> int \<Rightarrow> font \<Rightarrow> nat \<Rightarrow> string \<Rightarrow> error + draw_op list" where
  "draw_image e rows cols start_index padding fnt i path =
     (case image_size e path of
        None \<Rightarrow> Inl OSError
      | Some sz \<Rightarrow>
          if fst sz = 0 \<or> snd sz = 0 then Inl ZeroDivisionError
          else
            let r = rounding e;
                w = new_width r (img_max_width r cols) (img_max_height r rows) (fst sz) (snd sz);
                h = new_height r (img_max_width r cols) (img_max_height r rows) (fst sz) (snd sz)
            in
              if (w \<noteq> fst sz \<or> h \<noteq> snd sz) \<and> \<not> resize_ok e (w, h) then Inl ResizeError
              else
                let xc = x_center r rows cols i sz;
                    yc = y_center r rows cols i sz;
                    number = start_index + int i + 1;
                    txt = label_text number;
                    text_x = xc + padding_scale r padding;
                    text_y = yc + padding_scale r padding;
                    text_bbox = textbbox e fnt (text_x, text_y) txt;
                    bg_rect =
                      (case text_bbox of
                         (x0, y0, x1, y1) \<Rightarrow>
                           (x0 - bg_padding r, y0 - bg_padding r,
                            x1 + bg_padding r, y1 + bg_padding r))
                in Inr [Paste path (w, h) (xc, yc), Rectangle bg_rect,
                        Text (text_x, text_y) txt fnt])"

fun draw_images ::
  "env \<Rightarrow> int \<Rightarrow> int \<Rightarrow> int \<Rightarrow> int \<Rightarrow> font \<Rightarrow> nat \<Rightarrow> string list \<Rightarrow> page_image
     \<Rightarrow> error + page_image" where
  "draw_images e rows cols start_index padding fnt i [] page = Inr page"
| "draw_images e rows cols start_index padding fnt i (path # rest) page =
     (case draw_image e rows cols start_index padding fnt i path of
        Inl err \<Rightarrow> Inl err
      | Inr new_ops \<Rightarrow>
          draw_images e rows cols start_index padding fnt (Suc i) rest
            (page\<lparr>canvas_ops := canvas_ops page @ new_ops\<rparr>))"

subsection \<open>The page composer\<close>

definition combine_images_to_page ::
  "env \<Rightarrow> string list \<Rightarrow> int \<Rightarrow> int \<Rightarrow> int \<Rightarrow> int \<Rightarrow> int \<Rightarrow> error + page_image" where
  "combine_images_to_page e image_paths rows cols start_index padding font_size =
     (if cols = 0 \<or> rows = 0 then Inl ZeroDivisionError
      else
        (case load_font e (font_size_px (rounding e) font_size) font_candidates of
           None \<Rightarrow> Inl ValueError
         | Some fnt \<Rightarrow>
             draw_images e rows cols start_index padding fnt 0 image_paths
               \<lparr>canvas_size = (page_width_px (rounding e), page_height_px (rounding e)),
                canvas_ops = []\<rparr>))"

text \<open>What a canvas shows: the images pasted on it and the labels written on it, in order.\<close>

fun pasted :: "draw_op list \<Rightarrow> string list" where
  "pasted [] = []"
| "pasted (Paste path sz pos # ops) = path # pasted ops"
| "pasted (op # ops) = pasted ops"

fun labels :: "draw_op list \<Rightarrow> string list" where
  "labels [] = []"
| "labels (Text pos txt fnt # ops) = txt # labels ops"
| "labels (op # ops) = labels ops"

section \<open>create_pdf_from_images\<close>

text \<open>
  The temporary directory \<open>temp_page_images\<close> is the list of the file names in it, or
  \<open>None\<close> when it does not exist. Saving a page writes \<open>page_<k>.png\<close> there, replacing a
  file of that name.
\<close>

definition page_file :: "int \<Rightarrow> string" where
  "page_file k = ''page_'' @ str k @ ''.png''"

definition is_png :: "string \<Rightarrow> bool" where
  "is_png f \<longleftrightarrow> 4 \<le> length f \<and> drop (length f - 4) f = ''.png''"

text \<open>
  The loop over \<open>range(0, len(image_list), images_per_page)\<close>, from the index \<open>i\<close> on: each
  turn composes the slice \<open>image_list[i:i + images_per_page]\<close>, saves the page and adds it
  to the document in memory. A negative step gives an empty range; a step of 0 raises
  before the loop and is handled by the caller below. The result is the exception that
  ended the loop, if any, with the directory and the pages as they are then.
\<close>

function pages_loop ::
  "env \<Rightarrow> string list \<Rightarrow> int \<Rightarrow> int \<Rightarrow> nat \<Rightarrow> string list \<Rightarrow> page_image list
     \<Rightarrow> error option \<times> string list \<times> page_image list" where
  "pages_loop e image_list rows cols i files pdf =
     (if rows * cols \<le> 0 \<or> length image_list \<le> i then (None, files, pdf)
      else
        (case combine_images_to_page e
                (take (nat (rows * cols)) (drop i image_list)) rows cols (int i) 5 10 of
           Inl err \<Rightarrow> (Some err, files, pdf)
         | Inr combined_page \<Rightarrow>
             pages_loop e image_list rows cols (i + nat (rows * cols))
               (List.insert (page_file (int i div (rows * cols) + 1)) files)
               (pdf @ [combined_page])))"
  by pat_completeness auto
termination
  by (relation "measure (\<lambda>(e, image_list, rows, cols, i, files, pdf). length image_list - i)")
     auto

declare pages_loop.simps [simp del]

datatype outcome = Finished | MkdirFailed | Raised error

record run =
  outcome :: outcome
  document_written :: bool
  pdf_pages :: "page_image list"
  temp_dir :: "string list option"

text \<open>
  The cleanup loop of lines 219 and 220: \<open>temp_dir.glob("*.png")\<close> yields the entries of the
  directory whose names end in \<open>.png\<close>, each once, in the order of the file system, and
  each is unlinked in turn. An entry that cannot be unlinked raises and ends the loop, with
  that entry and the entries after it still in place. The result is the exception, if any,
  and the entries left in the directory.
\<close>

definition glob_png :: "env \<Rightarrow> string list \<Rightarrow> string list" where
  "glob_png e entries = sort_key (glob_rank e) (remdups (filter is_png entries))"

fun unlink_all :: "env \<Rightarrow> string list \<Rightarrow> string list \<Rightarrow> error option \<times> string list" where
  "unlink_all e [] entries = (None, entries)"
| "unlink_all e (file # rest) entries =
     (if unlink_ok e file then unlink_all e rest (removeAll file entries)
      else (Some OSError, entries))"

text \<open>
  A run of the driver, from the state \<open>dir\<close> of the temporary directory: how the call
  ends, whether \<open>pdf.output\<close> wrote the document, the pages added to the document by
  then, and the temporary directory afterwards. After the cleanup loop \<open>rmdir\<close> removes the
  directory; it raises when entries remain in it or when the file system refuses.
\<close>

definition create_pdf_from_images ::
  "env \<Rightarrow> string list option \<Rightarrow> string list \<Rightarrow> int \<Rightarrow> int \<Rightarrow> run" where
  "create_pdf_from_images e dir image_list rows cols =
     (if \<not> mkdir_ok e then
        \<lparr>outcome = MkdirFailed, document_written = False, pdf_pages = [], temp_dir = dir\<rparr>
      else
        let files0 = (case dir of None \<Rightarrow> [] | Some fs \<Rightarrow> fs) in
        if rows * cols = 0 then
          \<lparr>outcome = Raised ValueError, document_written = False, pdf_pages = [],
           temp_dir = Some files0\<rparr>
        else
          (case pages_loop e image_list rows cols 0 files0 [] of
             (Some err, files, pdf) \<Rightarrow>
               \<lparr>outcome = Raised err, document_written = False, pdf_pages = pdf,
                temp_dir = Some files\<rparr>
           | (None, files, pdf) \<Rightarrow>
               if \<not> output_ok e then
                 \<lparr>outcome = Raised OSError, document_written = False, pdf_pages = pdf,
                  temp_dir = Some files\<rparr>
               else
                 (case unlink_all e (glob_png e files) files of
                    (Some err, rest) \<Rightarrow>
                      \<lparr>outcome = Raised err, document_written = True, pdf_pages = pdf,
                       temp_dir = Some rest\<rparr>
                  | (None, rest) \<Rightarrow>
                      if rest = [] \<and> rmdir_ok e then
                        \<lparr>outcome = Finished, document_written = True, pdf_pages = pdf,
                         temp_dir = None\<rparr>
                      else
                        \<lparr>outcome = Raised OSError, document_written = True, pdf_pages = pdf,
                         temp_dir = Some rest\<rparr>)))"


section \<open>Formulas of the specification, for comparison\<close>

text \<open>
  The drawable size as the specification words it: one floor, applied to the product of
  the physical size less both margins and the density.
\<close>

definition spec_drawable_px :: "rat \<Rightarrow> int" where
  "spec_drawable_px physical_pt =
     \<lfloor>(physical_pt - 2 * of_int MARGIN_PT) * (of_int DPI / of_int PT_PER_INCH)\<rfloor>"

section \<open>An environment for the closed examples\<close>

text \<open>
  Exact arithmetic, one face that loads, three image files (every other path does not
  open), a resize that accepts the positive sizes, a text box of 20 pixels per character,
  and a file system that lets the directory be made, the document be written and the
  empty directory be removed. In it \<open>sub.png\<close> is the name of a directory, which cannot be
  unlinked and is listed before the other entries; every other entry can be unlinked. The
  image sizes and the grids of the examples are chosen so that the scale factor of every
  image is 1 or a binary fraction, which binary64 computes exactly.
\<close>

definition example_env :: env where
  "example_env =
     \<lparr>rounding = (\<lambda>x. x),
      truetype = (\<lambda>font_name sz. font_name = ''DejaVuSans.ttf''),
      image_size =
        map_of [(''a.png'', (640, 480)), (''b.png'', (1486, 1000)), (''c.png'', (1024, 1))],
      resize_ok = (\<lambda>sz. 0 < fst sz \<and> 0 < snd sz),
      textbbox = (\<lambda>fnt pos txt. (fst pos, snd pos, fst pos + 20 * int (length txt), snd pos + 41)),
      mkdir_ok = True,
      output_ok = True,
      glob_rank = (\<lambda>f. if f = ''sub.png'' then 0 else 1),
      unlink_ok = (\<lambda>f. f \<noteq> ''sub.png''),
      rmdir_ok = True\<rparr>"

section \<open>Reading a loop turn on its own\<close>

text \<open>
  The drawing operations one turn of the composer's loop adds, and none when the turn
  raises; the lemmas describe a composed page as the concatenation of these.
\<close>

definition image_ops ::
  "env \<Rightarrow> int \<Rightarrow> int \<Rightarrow> int \<Rightarrow> int \<Rightarrow> font \<Rightarrow> nat \<Rightarrow> string \<Rightarrow> draw_op list" where
  "image_ops e rows cols start_index padding fnt i path =
     (case draw_image e rows cols start_index padding fnt i path of
        Inl err \<Rightarrow> []
      | Inr new_ops \<Rightarrow> new_ops)"

text \<open>The target size of an image of native size \<open>sz\<close> on the grid.\<close>

definition target_size :: "(rat \<Rightarrow> rat) \<Rightarrow> int \<Rightarrow> int \<Rightarrow> int \<times> int \<Rightarrow> int \<times> int" where
  "target_size r rows cols sz =
     (new_width r (img_max_width r cols) (img_max_height r rows) (fst sz) (snd sz),
      new_height r (img_max_width r cols) (img_max_height r rows) (fst sz) (snd sz))"

text \<open>
  An image the loop can draw on the grid: it opens, neither native dimension is 0, and
  its target size is its native size or one that \<open>Image.resize\<close> accepts.
\<close>

definition drawable :: "env \<Rightarrow> int \<Rightarrow> int \<Rightarrow> string \<Rightarrow> bool" where
  "drawable e rows cols path \<longleftrightarrow>
     (case image_size e path of
        None \<Rightarrow> False
      | Some sz \<Rightarrow>
          fst sz \<noteq> 0 \<and> snd sz \<noteq> 0 \<and>
          (target_size (rounding e) rows cols sz = sz \<or>
           resize_ok e (target_size (rounding e) rows cols sz)))"

section \<open>Reading a label back\<close>

text \<open>
  The value of a string of decimal digits, as \<open>int(s)\<close> reads it; it shows that different
  ordinals have different labels.
\<close>

definition digit_value :: "char \<Rightarrow> nat" where
  "digit_value c = length (takeWhile (\<lambda>d. d \<noteq> c) ''0123456789'')"

definition read_nat :: "string \<Rightarrow> nat" where
  "read_nat ds = foldl (\<lambda>a c. 10 * a + digit_value c) 0 ds"


section \<open>Numbers: rounding and truncation\<close>

lemma rounding_mono: "binary64_rounding rnd \<Longrightarrow> x \<le> y \<Longrightarrow> rnd x \<le> rnd y"
  by (simp add: binary64_rounding_def)

lemma rounding_dyadic:
  "binary64_rounding rnd \<Longrightarrow> \<bar>n\<bar> \<le> 2 ^ 53 \<Longrightarrow> k \<le> 64 \<Longrightarrow> rnd (of_int n / 2 ^ k) = of_int n / 2 ^ k"
  by (simp add: binary64_rounding_def)

lemma rounding_int: "binary64_rounding rnd \<Longrightarrow> \<bar>n\<bar> \<le> 2 ^ 53 \<Longrightarrow> rnd (of_int n) = of_int n"
  using rounding_dyadic [of rnd n 0] by simp

lemma rounding_between:
  assumes "binary64_rounding rnd" and "of_int a / 2 ^ j \<le> x" and "x \<le> of_int b / 2 ^ k"
    and "\<bar>a\<bar> \<le> 2 ^ 53" and "\<bar>b\<bar> \<le> 2 ^ 53" and "j \<le> 64" and "k \<le> 64"
  shows "of_int a / 2 ^ j \<le> rnd x \<and> rnd x \<le> of_int b / 2 ^ k"
proof -
  have "rnd (of_int a / 2 ^ j) \<le> rnd x" using assms(1,2) by (rule rounding_mono)
  moreover have "rnd x \<le> rnd (of_int b / 2 ^ k)" using assms(1,3) by (rule rounding_mono)
  ultimately show ?thesis
    using rounding_dyadic [OF assms(1,4,6)] rounding_dyadic [OF assms(1,5,7)] by simp
qed

lemma py_int_eq: "of_int n \<le> x \<Longrightarrow> x < of_int n + 1 \<Longrightarrow> 0 \<le> n \<Longrightarrow> py_int x = n"
  unfolding py_int_def by (auto simp: floor_eq_iff) 

lemma exact_rounding: "binary64_rounding (\<lambda>x. x)"
  by (simp add: binary64_rounding_def)

lemma py_int_window:
  assumes "binary64_rounding rnd" and "of_int a / 2 ^ j \<le> x" and "x \<le> of_int b / 2 ^ k"
    and "\<bar>a\<bar> \<le> 2 ^ 53" and "\<bar>b\<bar> \<le> 2 ^ 53" and "j \<le> 64" and "k \<le> 64"
    and "(of_int n :: rat) \<le> of_int a / 2 ^ j" and "(of_int b / 2 ^ k :: rat) < of_int n + 1" and "0 \<le> n"
  shows "py_int (rnd x) = n"
proof -
  have "of_int a / 2 ^ j \<le> rnd x \<and> rnd x \<le> of_int b / 2 ^ k"
    using assms(1-7) by (rule rounding_between)
  then have "of_int n \<le> rnd x" and "rnd x < of_int n + 1"
    using assms(8,9) by linarith+
  then show ?thesis using assms(10) by (rule py_int_eq)
qed

lemma A4_WIDTH_PT_bounds:
  assumes "binary64_rounding rnd"
  shows "2381 / 4 \<le> A4_WIDTH_PT rnd \<and> A4_WIDTH_PT rnd \<le> 1191 / 2"
  using rounding_between [OF assms, of 2381 2 "59528 / 100" 1191 1]
  by (simp add: A4_WIDTH_PT_def)

lemma A4_HEIGHT_PT_bounds:
  assumes "binary64_rounding rnd"
  shows "3367 / 4 \<le> A4_HEIGHT_PT rnd \<and> A4_HEIGHT_PT rnd \<le> 13471 / 16"
  using rounding_between [OF assms, of 3367 2 "84189 / 100" 13471 4]
  by (simp add: A4_HEIGHT_PT_def)

lemma SCALE_FACTOR_bounds:
  assumes "binary64_rounding rnd"
  shows "8533 / 2048 \<le> SCALE_FACTOR rnd \<and> SCALE_FACTOR rnd \<le> 4267 / 1024"
  using rounding_between [OF assms, of 8533 11 "300 / 72" 4267 10]
  by (simp add: SCALE_FACTOR_def DPI_def PT_PER_INCH_def)

lemma page_width_pt_eq:
  assumes "binary64_rounding rnd"
  shows "page_width_pt rnd = 535"
  unfolding page_width_pt_def
  using A4_WIDTH_PT_bounds [OF assms]
  by (intro py_int_window [OF assms, of 2141 2 _ 1071 1]) (simp_all add: MARGIN_PT_def)

lemma page_height_pt_eq:
  assumes "binary64_rounding rnd"
  shows "page_height_pt rnd = 781"
  unfolding page_height_pt_def
  using A4_HEIGHT_PT_bounds [OF assms]
  by (intro py_int_window [OF assms, of 3127 2 _ 12511 4]) (simp_all add: MARGIN_PT_def)

lemma page_width_px_eq:
  assumes "binary64_rounding rnd"
  shows "page_width_px rnd = 2229"
  unfolding page_width_px_def page_width_pt_eq [OF assms]
  using SCALE_FACTOR_bounds [OF assms]
  by (intro py_int_window [OF assms, of 2229 0 _ 4459 1]) simp_all

lemma page_height_px_eq:
  assumes "binary64_rounding rnd"
  shows "page_height_px rnd = 3254"
  unfolding page_height_px_def page_height_pt_eq [OF assms]
  using SCALE_FACTOR_bounds [OF assms]
  by (intro py_int_window [OF assms, of 3254 0 _ 6509 1]) simp_all

lemma font_size_px_default:
  assumes "binary64_rounding rnd"
  shows "font_size_px rnd 10 = 41"
  unfolding font_size_px_def
  using SCALE_FACTOR_bounds [OF assms]
  by (intro py_int_window [OF assms, of 83 1 _ 167 2]) simp_all

lemma padding_scale_default:
  assumes "binary64_rounding rnd"
  shows "padding_scale rnd 5 = 20"
  unfolding padding_scale_def
  using SCALE_FACTOR_bounds [OF assms]
  by (intro py_int_window [OF assms, of 41 1 _ 167 3]) simp_all

lemma bg_padding_eq:
  assumes "binary64_rounding rnd"
  shows "bg_padding rnd = 8"
  unfolding bg_padding_def
  using SCALE_FACTOR_bounds [OF assms]
  by (intro py_int_window [OF assms, of 33 2 _ 67 3]) simp_all


lemma div_remainder: "0 < (c::int) \<Longrightarrow> c * (a div c) \<le> a \<and> a - c * (a div c) < c"
proof -
  assume c: "0 < c"
  have "a - c * (a div c) = a mod c" by (simp add: minus_mult_div_eq_mod)
  moreover have "0 \<le> a mod c" and "a mod c < c" using c by simp_all
  ultimately show ?thesis by linarith
qed

lemma draw_images_size:
  "draw_images e rows cols s p f i paths page = Inr page' \<Longrightarrow> canvas_size page' = canvas_size page"
  by (induction paths arbitrary: i page) (auto split: sum.splits)

lemma combine_size:
  assumes "binary64_rounding (rounding e)"
    and "combine_images_to_page e paths rows cols s p f = Inr page"
  shows "canvas_size page = (2229, 3254)"
  using assms(2) draw_images_size
  by (auto simp: combine_images_to_page_def page_width_px_eq [OF assms(1)]
      page_height_px_eq [OF assms(1)] split: if_splits option.splits)

lemma idx_in_page_small: "int i < rows * cols \<Longrightarrow> idx_in_page rows cols i = int i"
  by (simp add: idx_in_page_def)

lemma int_div_less:
  assumes "0 < (c::int)" and "a < b * c"
  shows "a div c < b"
proof (rule ccontr)
  assume "\<not> a div c < b"
  then have "c * b \<le> c * (a div c)" using assms(1) by (simp add: mult_left_mono)
  moreover have "c * (a div c) \<le> a" using div_remainder [OF assms(1), of a] by simp
  ultimately show False using assms(2) by (simp add: mult.commute)
qed

section \<open>The fitter under rounding\<close>

lemma py_int_floor: "0 \<le> x \<Longrightarrow> py_int x = \<lfloor>x\<rfloor>"
  by (simp add: py_int_def)

lemma py_int_nonneg: "0 \<le> x \<Longrightarrow> 0 \<le> py_int x"
  by (simp add: py_int_def)

lemma py_int_le: "x \<le> of_int n \<Longrightarrow> 0 \<le> n \<Longrightarrow> py_int x \<le> n"
  unfolding py_int_def by (auto simp: floor_le_iff ceiling_le_iff)

lemma py_int_of_int: "py_int (of_int n) = n"
  by (simp add: py_int_def)

lemma rounding_zero: "binary64_rounding rnd \<Longrightarrow> rnd 0 = 0"
  using rounding_int [of rnd 0] by simp

lemma rounding_one: "binary64_rounding rnd \<Longrightarrow> rnd 1 = 1"
  using rounding_int [of rnd 1] by simp

lemma rounding_nonneg: "binary64_rounding rnd \<Longrightarrow> 0 \<le> x \<Longrightarrow> 0 \<le> rnd x"
  using rounding_mono [of rnd 0 x] rounding_zero [of rnd] by simp

lemma rounding_ge_one: "binary64_rounding rnd \<Longrightarrow> 1 \<le> x \<Longrightarrow> 1 \<le> rnd x"
  using rounding_mono [of rnd 1 x] rounding_one [of rnd] by simp

lemma scale_le_one: "scale rnd cw ch w h \<le> 1"
  by (simp add: scale_def Let_def)

lemma scale_nonneg:
  assumes "binary64_rounding rnd" and "0 \<le> cw" and "0 \<le> ch" and "0 < w" and "0 < h"
  shows "0 \<le> scale rnd cw ch w h"
proof -
  have "0 \<le> rnd (of_int cw / of_int w)" using assms by (simp add: rounding_nonneg)
  moreover have "0 \<le> rnd (of_int ch / of_int h)" using assms by (simp add: rounding_nonneg)
  ultimately show ?thesis by (simp add: scale_def Let_def)
qed

lemma scale_fits:
  assumes "binary64_rounding rnd" and "0 < w" and "w \<le> cw" and "0 < h" and "h \<le> ch"
  shows "scale rnd cw ch w h = 1"
proof -
  have "1 \<le> rnd (of_int cw / of_int w)" using assms by (simp add: rounding_ge_one)
  moreover have "1 \<le> rnd (of_int ch / of_int h)" using assms by (simp add: rounding_ge_one)
  ultimately show ?thesis by (simp add: scale_def Let_def)
qed

lemma scaled_bounds:
  assumes "binary64_rounding rnd" and "0 < n" and "n \<le> 2 ^ 53" and "0 \<le> s" and "s \<le> 1"
  shows "0 \<le> rnd (of_int n * s) \<and> rnd (of_int n * s) \<le> of_int n"
proof -
  have "0 \<le> of_int n * s" using assms by simp
  then have lo: "0 \<le> rnd (of_int n * s)" using assms(1) by (simp add: rounding_nonneg)
  have "of_int n * s \<le> of_int n * 1" using assms by (intro mult_left_mono) simp_all
  then have "rnd (of_int n * s) \<le> rnd (of_int n)"
    using rounding_mono [OF assms(1), of "of_int n * s" "of_int n"] by simp
  moreover have "rnd (of_int n) = of_int n" using assms by (simp add: rounding_int)
  ultimately show ?thesis using lo by simp
qed

lemma new_width_bounds:
  assumes "binary64_rounding rnd" and "0 \<le> cw" and "0 \<le> ch"
    and "0 < w" and "w \<le> 2 ^ 53" and "0 < h"
  shows "new_width rnd cw ch w h = \<lfloor>rnd (of_int w * scale rnd cw ch w h)\<rfloor> \<and>
         0 \<le> new_width rnd cw ch w h \<and> new_width rnd cw ch w h \<le> w"
proof -
  have b: "0 \<le> rnd (of_int w * scale rnd cw ch w h) \<and> rnd (of_int w * scale rnd cw ch w h) \<le> of_int w"
    using scaled_bounds [OF assms(1,4,5) scale_nonneg [OF assms(1,2,3,4,6)] scale_le_one] .
  then show ?thesis
    using py_int_le [of "rnd (of_int w * scale rnd cw ch w h)" w] assms(4)
    by (simp add: new_width_def py_int_floor)
qed

lemma new_height_bounds:
  assumes "binary64_rounding rnd" and "0 \<le> cw" and "0 \<le> ch"
    and "0 < w" and "0 < h" and "h \<le> 2 ^ 53"
  shows "new_height rnd cw ch w h = \<lfloor>rnd (of_int h * scale rnd cw ch w h)\<rfloor> \<and>
         0 \<le> new_height rnd cw ch w h \<and> new_height rnd cw ch w h \<le> h"
proof -
  have b: "0 \<le> rnd (of_int h * scale rnd cw ch w h) \<and> rnd (of_int h * scale rnd cw ch w h) \<le> of_int h"
    using scaled_bounds [OF assms(1,5,6) scale_nonneg [OF assms(1,2,3,4,5)] scale_le_one] .
  then show ?thesis
    using py_int_le [of "rnd (of_int h * scale rnd cw ch w h)" h] assms(5)
    by (simp add: new_height_def py_int_floor)
qed

lemma new_size_fits:
  assumes "binary64_rounding rnd" and "0 < w" and "w \<le> cw" and "w \<le> 2 ^ 53"
    and "0 < h" and "h \<le> ch" and "h \<le> 2 ^ 53"
  shows "new_width rnd cw ch w h = w \<and> new_height rnd cw ch w h = h"
proof -
  have s: "scale rnd cw ch w h = 1" using assms by (simp add: scale_fits)
  have "rnd (of_int w) = of_int w" and "rnd (of_int h) = of_int h"
    using assms by (simp_all add: rounding_int)
  then show ?thesis by (simp add: new_width_def new_height_def s py_int_of_int)
qed

lemma centre_bias:
  fixes a n :: int
  shows "(a - n) div 2 = \<lfloor>(of_int (a - n) :: rat) / 2\<rfloor> \<and>
         (a - n) div 2 \<le> (a - n) - (a - n) div 2 \<and> (a - n) - (a - n) div 2 \<le> (a - n) div 2 + 1"
proof -
  have "\<lfloor>(of_int (a - n) :: rat) / 2\<rfloor> = (a - n) div 2"
    using floor_divide_of_int_eq [of "a - n" 2, where ?'a = rat] by simp
  then show ?thesis by (simp; linarith)
qed

lemma thin_image_scale:
  assumes "binary64_rounding rnd"
  shows "scale rnd 128 128 1024 1 = 1 / 8"
proof -
  have "rnd (of_int 1 / 2 ^ 3) = of_int 1 / 2 ^ 3" using assms by (intro rounding_dyadic) simp_all
  then have a: "rnd (1 / 8) = 1 / 8" by simp
  have "rnd (of_int 128) = of_int 128" using assms by (intro rounding_int) simp_all
  then have b: "rnd 128 = 128" by simp
  show ?thesis by (simp add: scale_def a b)
qed

lemma thin_image_size:
  assumes "binary64_rounding rnd"
  shows "new_width rnd 128 128 1024 1 = 128 \<and> new_height rnd 128 128 1024 1 = 0"
proof -
  have "rnd (of_int 1 / 2 ^ 3) = of_int 1 / 2 ^ 3" using assms by (intro rounding_dyadic) simp_all
  then have a: "rnd (1 / 8) = 1 / 8" by simp
  have "rnd (of_int 128) = of_int 128" using assms by (intro rounding_int) simp_all
  then have b: "rnd 128 = 128" by simp
  show ?thesis
    by (simp add: new_width_def new_height_def thin_image_scale [OF assms] py_int_def a b floor_eq_iff)
qed

lemma draw_image_paste:
  assumes "draw_image e rows cols s p f i path = Inr ops"
  shows "\<exists>w h. image_size e path = Some (w, h) \<and> w \<noteq> 0 \<and> h \<noteq> 0 \<and>
           ops =
             [Paste path
                (new_width (rounding e) (img_max_width (rounding e) cols)
                   (img_max_height (rounding e) rows) w h,
                 new_height (rounding e) (img_max_width (rounding e) cols)
                   (img_max_height (rounding e) rows) w h)
                (x_center (rounding e) rows cols i (w, h), y_center (rounding e) rows cols i (w, h)),
              Rectangle
                (case textbbox e f
                        (x_center (rounding e) rows cols i (w, h) + padding_scale (rounding e) p,
                         y_center (rounding e) rows cols i (w, h) + padding_scale (rounding e) p)
                        (label_text (s + int i + 1)) of
                   (x0, y0, x1, y1) \<Rightarrow>
                     (x0 - bg_padding (rounding e), y0 - bg_padding (rounding e),
                      x1 + bg_padding (rounding e), y1 + bg_padding (rounding e))),
              Text
                (x_center (rounding e) rows cols i (w, h) + padding_scale (rounding e) p,
                 y_center (rounding e) rows cols i (w, h) + padding_scale (rounding e) p)
                (label_text (s + int i + 1)) f]"
  using assms
  by (cases "image_size e path") (auto simp: draw_image_def Let_def split: if_splits)

section \<open>The composer's loop\<close>

lemma draw_image_drawable:
  "(\<exists>ops. draw_image e rows cols s p f i path = Inr ops) \<longleftrightarrow> drawable e rows cols path"
  by (auto simp: draw_image_def drawable_def target_size_def Let_def split: option.splits)

lemma draw_image_image_ops:
  "draw_image e rows cols s p f i path = Inr ops \<Longrightarrow> image_ops e rows cols s p f i path = ops"
  by (simp add: image_ops_def)

lemma image_ops_drawable:
  assumes "drawable e rows cols path"
  shows "draw_image e rows cols s p f i path = Inr (image_ops e rows cols s p f i path)"
proof -
  obtain ops where "draw_image e rows cols s p f i path = Inr ops"
    using assms draw_image_drawable [of e rows cols s p f i path] by blast
  then show ?thesis by (simp add: image_ops_def)
qed

lemma draw_images_ops:
  assumes "draw_images e rows cols s p f i paths page = Inr page'"
  shows "page' =
           page\<lparr>canvas_ops :=
                  canvas_ops page @
                  concat (map (\<lambda>(k, path). image_ops e rows cols s p f k path) (enumerate i paths))\<rparr> \<and>
         (\<forall>path \<in> set paths. drawable e rows cols path)"
  using assms
proof (induction paths arbitrary: i page)
  case Nil
  then show ?case by simp
next
  case (Cons path rest)
  from Cons.prems obtain ops where
    d: "draw_image e rows cols s p f i path = Inr ops" and
    r: "draw_images e rows cols s p f (Suc i) rest (page\<lparr>canvas_ops := canvas_ops page @ ops\<rparr>) = Inr page'"
    by (auto split: sum.splits)
  have dr: "drawable e rows cols path" using d draw_image_drawable [of e rows cols s p f i path] by blast
  from Cons.IH [OF r] d dr show ?case
    by (simp add: draw_image_image_ops)
qed

lemma draw_images_drawable:
  assumes "\<forall>path \<in> set paths. drawable e rows cols path"
  shows "\<exists>page'. draw_images e rows cols s p f i paths page = Inr page'"
  using assms
proof (induction paths arbitrary: i page)
  case Nil
  then show ?case by simp
next
  case (Cons path rest)
  then have "drawable e rows cols path" by simp
  then have "draw_image e rows cols s p f i path = Inr (image_ops e rows cols s p f i path)"
    by (rule image_ops_drawable)
  then show ?case using Cons by simp
qed

lemma load_font_None:
  "load_font e sz names = None \<longleftrightarrow> (\<forall>n \<in> set names. \<not> truetype e n sz)"
  by (induction names) auto

lemma load_font_Some:
  "load_font e sz names = Some fnt \<Longrightarrow>
     snd fnt = sz \<and> truetype e (fst fnt) sz \<and>
     (\<exists>before after. names = before @ fst fnt # after \<and> (\<forall>n \<in> set before. \<not> truetype e n sz))"
proof (induction names)
  case Nil
  then show ?case by simp
next
  case (Cons n rest)
  show ?case
  proof (cases "truetype e n sz")
    case True
    with Cons.prems have "fnt = (n, sz)" by simp
    then have "n # rest = [] @ fst fnt # rest \<and> (\<forall>m \<in> set []. \<not> truetype e m sz)" by simp
    then show ?thesis using True \<open>fnt = (n, sz)\<close> by (metis snd_conv fst_conv)
  next
    case False
    with Cons.prems have "load_font e sz rest = Some fnt" by simp
    from Cons.IH [OF this] obtain before after where
      "snd fnt = sz" "truetype e (fst fnt) sz" "rest = before @ fst fnt # after"
      "\<forall>m \<in> set before. \<not> truetype e m sz"
      by blast
    then have "n # rest = (n # before) @ fst fnt # after \<and> (\<forall>m \<in> set (n # before). \<not> truetype e m sz)"
      using False by simp
    then show ?thesis using \<open>snd fnt = sz\<close> \<open>truetype e (fst fnt) sz\<close> by blast
  qed
qed

lemma image_ops_cases:
  "image_ops e rows cols s p f i path = [] \<or>
   (\<exists>sz pos rect tpos. image_ops e rows cols s p f i path =
      [Paste path sz pos, Rectangle rect, Text tpos (label_text (s + int i + 1)) f])"
  by (auto simp: image_ops_def draw_image_def Let_def split: option.splits prod.splits)

lemma image_ops_font:
  "Text pos txt g \<in> set (image_ops e rows cols s p f i path) \<Longrightarrow> g = f"
  using image_ops_cases [of e rows cols s p f i path] by auto

lemma combine_cases:
  assumes "cols \<noteq> 0" and "rows \<noteq> 0"
  shows "combine_images_to_page e paths rows cols s p fs =
     (case load_font e (font_size_px (rounding e) fs) font_candidates of
        None \<Rightarrow> Inl ValueError
      | Some fnt \<Rightarrow>
          draw_images e rows cols s p fnt 0 paths
            \<lparr>canvas_size = (page_width_px (rounding e), page_height_px (rounding e)),
             canvas_ops = []\<rparr>)"
  using assms by (simp add: combine_images_to_page_def)

lemma combine_ops:
  assumes "combine_images_to_page e paths rows cols s p fs = Inr page"
  shows "\<exists>fnt. load_font e (font_size_px (rounding e) fs) font_candidates = Some fnt \<and>
           cols \<noteq> 0 \<and> rows \<noteq> 0 \<and>
           canvas_ops page =
             concat (map (\<lambda>(k, path). image_ops e rows cols s p fnt k path) (enumerate 0 paths)) \<and>
           (\<forall>path \<in> set paths. drawable e rows cols path)"
proof -
  from assms have nz: "cols \<noteq> 0" "rows \<noteq> 0"
    by (auto simp: combine_images_to_page_def split: if_splits)
  from assms obtain fnt where
    f: "load_font e (font_size_px (rounding e) fs) font_candidates = Some fnt" and
    d: "draw_images e rows cols s p fnt 0 paths
          \<lparr>canvas_size = (page_width_px (rounding e), page_height_px (rounding e)),
           canvas_ops = []\<rparr> = Inr page"
    by (auto simp: combine_cases [OF nz] split: option.splits)
  from draw_images_ops [OF d] show ?thesis using f nz by simp
qed

lemma pasted_append: "pasted (xs @ ys) = pasted xs @ pasted ys"
  by (induction xs rule: pasted.induct) simp_all

lemma labels_append: "labels (xs @ ys) = labels xs @ labels ys"
  by (induction xs rule: labels.induct) simp_all

lemma image_ops_shape:
  assumes "drawable e rows cols path"
  shows "\<exists>sz pos rect tpos. image_ops e rows cols s p f i path =
      [Paste path sz pos, Rectangle rect, Text tpos (label_text (s + int i + 1)) f]"
proof -
  have "draw_image e rows cols s p f i path = Inr (image_ops e rows cols s p f i path)"
    using assms by (rule image_ops_drawable)
  from draw_image_paste [OF this] show ?thesis by metis
qed

lemma image_ops_pasted: "drawable e rows cols path \<Longrightarrow> pasted (image_ops e rows cols s p f i path) = [path]"
  using image_ops_shape [of e rows cols path s p f i] by auto

lemma image_ops_labels:
  "drawable e rows cols path \<Longrightarrow> labels (image_ops e rows cols s p f i path) = [label_text (s + int i + 1)]"
  using image_ops_shape [of e rows cols path s p f i] by auto

lemma image_ops_length: "drawable e rows cols path \<Longrightarrow> length (image_ops e rows cols s p f i path) = 3"
  using image_ops_shape [of e rows cols path s p f i] by auto

lemma pasted_page:
  assumes "\<forall>path \<in> set paths. drawable e rows cols path"
  shows "pasted (concat (map (\<lambda>(k, path). image_ops e rows cols s p f k path) (enumerate i paths)))
         = paths"
  using assms by (induction paths arbitrary: i) (simp_all add: pasted_append image_ops_pasted)

lemma labels_page:
  assumes "\<forall>path \<in> set paths. drawable e rows cols path"
  shows "labels (concat (map (\<lambda>(k, path). image_ops e rows cols s p f k path) (enumerate i paths)))
         = map (\<lambda>k. label_text (s + int k + 1)) [i..<i + length paths]"
  using assms
proof (induction paths arbitrary: i)
  case Nil
  then show ?case by simp
next
  case (Cons path rest)
  have "[i..<i + length (path # rest)] = i # [Suc i..<Suc i + length rest]"
    by (simp add: upt_rec)
  then show ?case using Cons by (simp add: labels_append image_ops_labels)
qed

lemma length_page:
  assumes "\<forall>path \<in> set paths. drawable e rows cols path"
  shows "length (concat (map (\<lambda>(k, path). image_ops e rows cols s p f k path) (enumerate i paths)))
         = 3 * length paths"
  using assms by (induction paths arbitrary: i) (simp_all add: image_ops_length)

lemma nth_page:
  assumes "\<forall>path \<in> set paths. drawable e rows cols path" and "k < length paths"
  shows "concat (map (\<lambda>(j, path). image_ops e rows cols s p f j path) (enumerate i paths)) ! (3 * k)
         = hd (image_ops e rows cols s p f (i + k) (paths ! k))"
  using assms
proof (induction paths arbitrary: i k)
  case Nil
  then show ?case by simp
next
  case (Cons path rest)
  have l: "length (image_ops e rows cols s p f i path) = 3"
    using Cons.prems by (simp add: image_ops_length)
  show ?case
  proof (cases k)
    case 0
    then show ?thesis using l by (cases "image_ops e rows cols s p f i path") (simp_all add: nth_append)
  next
    case (Suc m)
    then have "m < length rest" using Cons.prems by simp
    moreover have "\<forall>path \<in> set rest. drawable e rows cols path" using Cons.prems by simp
    ultimately have "concat (map (\<lambda>(j, path). image_ops e rows cols s p f j path) (enumerate (Suc i) rest)) ! (3 * m)
         = hd (image_ops e rows cols s p f (Suc i + m) (rest ! m))"
      by (rule Cons.IH [rotated])
    then show ?thesis using Suc l by (simp add: nth_append)
  qed
qed

lemma combine_drawable:
  assumes "cols \<noteq> 0" and "rows \<noteq> 0"
    and "load_font e (font_size_px (rounding e) fs) font_candidates = Some fnt"
    and "\<forall>path \<in> set paths. drawable e rows cols path"
  shows "\<exists>page. combine_images_to_page e paths rows cols s p fs = Inr page"
  using draw_images_drawable [OF assms(4)] assms(3) by (simp add: combine_cases [OF assms(1,2)])

lemma idx_in_page_wrap:
  assumes "1 \<le> rows" and "1 \<le> cols"
  shows "idx_in_page rows cols k = idx_in_page rows cols (k mod nat (rows * cols))"
proof -
  have "0 < rows * cols" using assms by simp
  then have "int (k mod nat (rows * cols)) = int k mod (rows * cols)"
    by (simp add: zmod_int)
  then show ?thesis by (simp add: idx_in_page_def)
qed

lemma centre_wrap:
  assumes "1 \<le> rows" and "1 \<le> cols"
  shows "x_center r rows cols k sz = x_center r rows cols (k mod nat (rows * cols)) sz \<and>
         y_center r rows cols k sz = y_center r rows cols (k mod nat (rows * cols)) sz"
  using idx_in_page_wrap [OF assms, of k]
  by (simp add: x_center_def y_center_def x_start_def y_start_def cell_row_def cell_col_def)

lemma image_ops_hd:
  assumes "drawable e rows cols path"
  shows "\<exists>sz. image_size e path = Some sz \<and>
           hd (image_ops e rows cols s p f i path) =
             Paste path
               (new_width (rounding e) (img_max_width (rounding e) cols)
                  (img_max_height (rounding e) rows) (fst sz) (snd sz),
                new_height (rounding e) (img_max_width (rounding e) cols)
                  (img_max_height (rounding e) rows) (fst sz) (snd sz))
               (x_center (rounding e) rows cols i sz, y_center (rounding e) rows cols i sz)"
proof -
  have "draw_image e rows cols s p f i path = Inr (image_ops e rows cols s p f i path)"
    using assms by (rule image_ops_drawable)
  from draw_image_paste [OF this] show ?thesis by auto
qed

section \<open>The driver's loop\<close>

lemma combine_content:
  assumes "combine_images_to_page e paths rows cols s p fs = Inr page"
  shows "pasted (canvas_ops page) = paths \<and>
         labels (canvas_ops page) = map (\<lambda>k. label_text (s + int k + 1)) [0..<length paths] \<and>
         length (canvas_ops page) = 3 * length paths"
proof -
  from combine_ops [OF assms] obtain fnt where
    ops: "canvas_ops page =
      concat (map (\<lambda>(k, path). image_ops e rows cols s p fnt k path) (enumerate 0 paths))" and
    d: "\<forall>path \<in> set paths. drawable e rows cols path"
    by blast
  show ?thesis
    unfolding ops
    using pasted_page [OF d, of s p fnt 0] labels_page [OF d, of s p fnt 0]
      length_page [OF d, of s p fnt 0]
    by simp
qed

lemma page_count_step:
  assumes "0 < cap" and "i < n"
  shows "(n - i + cap - 1) div cap = Suc ((n - (i + cap) + cap - 1) div cap)"
proof (cases "i + cap \<le> n")
  case True
  have e: "n - i + cap - 1 = (n - (i + cap) + cap - 1) + cap" using assms True by arith
  have "cap \<noteq> 0" using assms(1) by simp
  then have "((n - (i + cap) + cap - 1) + cap) div cap = (n - (i + cap) + cap - 1) div cap + 1"
    by (rule div_add_self2)
  then show ?thesis by (simp only: e Suc_eq_plus1)
next
  case False
  have z: "n - (i + cap) = 0" using False by arith
  have lo: "cap * 1 \<le> n - i + cap - 1" using assms by arith
  have hi: "n - i + cap - 1 < cap * Suc 1" using assms False by arith
  have one: "(n - i + cap - 1) div cap = 1" using lo hi by (rule div_nat_eqI)
  have zero: "(cap - 1) div cap = 0" using assms(1) by (simp only: div_less diff_less zero_less_one)
  have "Suc ((n - (i + cap) + cap - 1) div cap) = Suc ((cap - 1) div cap)"
    by (simp only: z add_0)
  also have "\<dots> = 1" using zero by simp
  finally show ?thesis using one by (simp only:)
qed

lemma pages_loop_pages:
  assumes "0 < rows * cols"
    and "pages_loop e xs rows cols i files pdf = (err, files', pdf')"
  shows "\<exists>new. pdf' = pdf @ new \<and>
           (\<forall>m < length new.
              combine_images_to_page e
                (take (nat (rows * cols)) (drop (i + m * nat (rows * cols)) xs)) rows cols
                (int (i + m * nat (rows * cols))) 5 10 = Inr (new ! m)) \<and>
           (err = None \<longrightarrow>
              length new = (length xs - i + nat (rows * cols) - 1) div nat (rows * cols))"
  using assms
proof (induction e xs rows cols i files pdf rule: pages_loop.induct)
  case (1 e xs rows cols i files pdf)
  let ?cap = "nat (rows * cols)"
  have cap: "0 < ?cap" using "1.prems"(1) by simp
  show ?case
  proof (cases "length xs \<le> i")
    case True
    then have "pages_loop e xs rows cols i files pdf = (None, files, pdf)"
      by (simp add: pages_loop.simps)
    with "1.prems"(2) have r: "err = None" "pdf' = pdf" by simp_all
    have "length xs - i + ?cap - 1 < ?cap" using True cap by simp
    then have "(length xs - i + ?cap - 1) div ?cap = 0" by simp
    then show ?thesis using r by simp
  next
    case False
    then have go: "\<not> (rows * cols \<le> 0 \<or> length xs \<le> i)" using "1.prems"(1) by simp
    show ?thesis
    proof (cases "combine_images_to_page e (take ?cap (drop i xs)) rows cols (int i) 5 10")
      case (Inl e')
      then have "pages_loop e xs rows cols i files pdf = (Some e', files, pdf)"
        using go by (simp add: pages_loop.simps [of e xs rows cols i])
      with "1.prems"(2) have "err = Some e'" "pdf' = pdf" by simp_all
      then show ?thesis by simp
    next
      case (Inr b)
      then have "pages_loop e xs rows cols i files pdf =
          pages_loop e xs rows cols (i + ?cap)
            (List.insert (page_file (int i div (rows * cols) + 1)) files) (pdf @ [b])"
        using go by (simp add: pages_loop.simps [of e xs rows cols i])
      with "1.prems"(2) have rec: "pages_loop e xs rows cols (i + ?cap)
            (List.insert (page_file (int i div (rows * cols) + 1)) files) (pdf @ [b]) =
          (err, files', pdf')"
        by simp
      from "1.IH" [OF go Inr "1.prems"(1) rec] obtain new where
        n1: "pdf' = (pdf @ [b]) @ new" and
        n2: "\<forall>m < length new.
              combine_images_to_page e (take ?cap (drop (i + ?cap + m * ?cap) xs)) rows cols
                (int (i + ?cap + m * ?cap)) 5 10 = Inr (new ! m)" and
        n3: "err = None \<longrightarrow> length new = (length xs - (i + ?cap) + ?cap - 1) div ?cap"
        by blast
      have a: "pdf' = pdf @ (b # new)" using n1 by simp
      have b: "\<forall>m < length (b # new).
              combine_images_to_page e (take ?cap (drop (i + m * ?cap) xs)) rows cols
                (int (i + m * ?cap)) 5 10 = Inr ((b # new) ! m)"
      proof (intro allI impI)
        fix m
        assume m: "m < length (b # new)"
        show "combine_images_to_page e (take ?cap (drop (i + m * ?cap) xs)) rows cols
                (int (i + m * ?cap)) 5 10 = Inr ((b # new) ! m)"
        proof (cases m)
          case 0
          then show ?thesis using Inr by simp
        next
          case (Suc k)
          then have "k < length new" using m by simp
          with n2 have "combine_images_to_page e (take ?cap (drop (i + ?cap + k * ?cap) xs)) rows cols
                (int (i + ?cap + k * ?cap)) 5 10 = Inr (new ! k)"
            by blast
          moreover have "i + ?cap + k * ?cap = i + m * ?cap" using Suc by simp
          ultimately show ?thesis using Suc by (simp only: nth_Cons_Suc)
        qed
      qed
      have c: "err = None \<longrightarrow> length (b # new) = (length xs - i + ?cap - 1) div ?cap"
        using n3 page_count_step [OF cap, of i "length xs"] False by simp
      show ?thesis using a b c by blast
    qed
  qed
qed

lemma page_index:
  assumes "0 < (c::int)"
  shows "int (k * nat c) div c = int k"
proof -
  have "int (k * nat c) = int k * c" using assms by simp
  then show ?thesis using assms by simp
qed

lemma pages_loop_files:
  assumes "0 < rows * cols"
    and "pages_loop e xs rows cols i files pdf = (err, files', pdf')"
    and "i = length pdf * nat (rows * cols)"
  shows "length pdf \<le> length pdf' \<and>
         set files' = set files \<union> (\<lambda>k. page_file (int k + 1)) ` {length pdf..<length pdf'}"
  using assms
proof (induction e xs rows cols i files pdf rule: pages_loop.induct)
  case (1 e xs rows cols i files pdf)
  let ?cap = "nat (rows * cols)"
  show ?case
  proof (cases "length xs \<le> i")
    case True
    then have "pages_loop e xs rows cols i files pdf = (None, files, pdf)"
      by (simp add: pages_loop.simps)
    with "1.prems"(2) show ?thesis by simp
  next
    case False
    then have go: "\<not> (rows * cols \<le> 0 \<or> length xs \<le> i)" using "1.prems"(1) by simp
    show ?thesis
    proof (cases "combine_images_to_page e (take ?cap (drop i xs)) rows cols (int i) 5 10")
      case (Inl e')
      then have "pages_loop e xs rows cols i files pdf = (Some e', files, pdf)"
        using go by (simp add: pages_loop.simps [of e xs rows cols i])
      with "1.prems"(2) show ?thesis by simp
    next
      case (Inr b)
      then have "pages_loop e xs rows cols i files pdf =
          pages_loop e xs rows cols (i + ?cap)
            (List.insert (page_file (int i div (rows * cols) + 1)) files) (pdf @ [b])"
        using go by (simp add: pages_loop.simps [of e xs rows cols i])
      with "1.prems"(2) have rec: "pages_loop e xs rows cols (i + ?cap)
            (List.insert (page_file (int i div (rows * cols) + 1)) files) (pdf @ [b]) =
          (err, files', pdf')"
        by simp
      have inv: "i + ?cap = length (pdf @ [b]) * ?cap" using "1.prems"(3) by simp
      from "1.IH" [OF go Inr "1.prems"(1) rec inv]
      have le: "length (pdf @ [b]) \<le> length pdf'" and
        fs: "set files' =
          set (List.insert (page_file (int i div (rows * cols) + 1)) files) \<union>
          (\<lambda>k. page_file (int k + 1)) ` {length (pdf @ [b])..<length pdf'}"
        by blast+
      have idx: "int i div (rows * cols) = int (length pdf)"
        using page_index [OF "1.prems"(1), of "length pdf"] "1.prems"(3) by simp
      have "{length pdf..<length pdf'} = insert (length pdf) {Suc (length pdf)..<length pdf'}"
        using le by auto
      then have "(\<lambda>k. page_file (int k + 1)) ` {length pdf..<length pdf'} =
          insert (page_file (int (length pdf) + 1))
            ((\<lambda>k. page_file (int k + 1)) ` {Suc (length pdf)..<length pdf'})"
        by simp
      then show ?thesis using le fs idx by auto
    qed
  qed
qed

lemma pages_loop_entries:
  assumes "pages_loop e xs rows cols 0 files [] = (err, files', pdf')"
  shows "set files' = set files \<union> (\<lambda>k. page_file (int k + 1)) ` {0..<length pdf'}"
proof (cases "0 < rows * cols")
  case True
  from pages_loop_files [OF True assms] show ?thesis by simp
next
  case False
  then have "pages_loop e xs rows cols 0 files [] = (None, files, [])"
    by (simp add: pages_loop.simps)
  with assms show ?thesis by simp
qed

lemma set_glob_png: "set (glob_png e entries) = {f \<in> set entries. is_png f}"
  by (auto simp: glob_png_def)

lemma unlink_all_subset:
  "unlink_all e fs entries = (err, rest) \<Longrightarrow> set rest \<subseteq> set entries"
proof (induction fs arbitrary: entries)
  case Nil
  then show ?case by simp
next
  case (Cons f fs)
  show ?case
  proof (cases "unlink_ok e f")
    case True
    with Cons.prems have "unlink_all e fs (removeAll f entries) = (err, rest)" by simp
    from Cons.IH [OF this] show ?thesis by auto
  next
    case False
    with Cons.prems show ?thesis by simp
  qed
qed

lemma unlink_all_ok:
  "\<forall>f \<in> set fs. unlink_ok e f \<Longrightarrow>
   unlink_all e fs entries = (None, filter (\<lambda>x. x \<notin> set fs) entries)"
proof (induction fs arbitrary: entries)
  case Nil
  then show ?case by simp
next
  case (Cons f fs)
  then have "unlink_all e (f # fs) entries =
      (None, filter (\<lambda>x. x \<notin> set fs) (removeAll f entries))"
    by simp
  moreover have "filter (\<lambda>x. x \<notin> set fs) (removeAll f entries) =
      filter (\<lambda>x. x \<notin> set (f # fs)) entries"
    by (induction entries) auto
  ultimately show ?case by simp
qed

lemma unlink_all_refused:
  "unlink_all e fs entries = (err, rest) \<Longrightarrow> \<not> unlink_ok e f \<Longrightarrow>
   (f \<in> set entries \<longrightarrow> f \<in> set rest) \<and> (f \<in> set fs \<longrightarrow> err = Some OSError)"
proof (induction fs arbitrary: entries)
  case Nil
  then show ?case by simp
next
  case (Cons g fs)
  show ?case
  proof (cases "unlink_ok e g")
    case True
    with Cons.prems(1) have r: "unlink_all e fs (removeAll g entries) = (err, rest)" by simp
    have ne: "f \<noteq> g" using True Cons.prems(2) by auto
    from Cons.IH [OF r Cons.prems(2)] ne show ?thesis by simp
  next
    case False
    with Cons.prems(1) show ?thesis by auto
  qed
qed

lemma run_written:
  assumes "document_written (create_pdf_from_images e dir xs rows cols)"
  shows "mkdir_ok e \<and> output_ok e \<and> rows * cols \<noteq> 0 \<and>
         (\<exists>files err rest.
            pages_loop e xs rows cols 0 (case dir of None \<Rightarrow> [] | Some fs \<Rightarrow> fs) [] =
              (None, files, pdf_pages (create_pdf_from_images e dir xs rows cols)) \<and>
            unlink_all e (glob_png e files) files = (err, rest) \<and>
            temp_dir (create_pdf_from_images e dir xs rows cols) =
              (if err = None \<and> rest = [] \<and> rmdir_ok e then None else Some rest) \<and>
            outcome (create_pdf_from_images e dir xs rows cols) =
              (case err of
                 Some x \<Rightarrow> Raised x
               | None \<Rightarrow> if rest = [] \<and> rmdir_ok e then Finished else Raised OSError))"
  using assms
  by (auto simp: create_pdf_from_images_def Let_def split: if_splits prod.splits option.splits)

lemma run_not_written:
  assumes "mkdir_ok e" and "\<not> document_written (create_pdf_from_images e dir xs rows cols)"
    and "rows * cols \<noteq> 0"
  shows "\<exists>err files. pages_loop e xs rows cols 0 (case dir of None \<Rightarrow> [] | Some fs \<Rightarrow> fs) [] =
            (err, files, pdf_pages (create_pdf_from_images e dir xs rows cols)) \<and>
            temp_dir (create_pdf_from_images e dir xs rows cols) = Some files \<and>
            (err \<noteq> None \<or> \<not> output_ok e)"
  using assms
  by (auto simp: create_pdf_from_images_def Let_def split: if_splits prod.splits option.splits)

lemma is_png_page_file: "is_png (page_file k)"
  by (simp add: is_png_def page_file_def)

lemma page_count_ceiling:
  assumes "0 < cap"
  shows "int ((n + cap - 1) div cap) = \<lceil>(of_nat n :: rat) / of_nat cap\<rceil>"
proof -
  let ?q = "(n + cap - 1) div cap"
  have le: "?q * cap \<le> n + cap - 1" by simp
  have lt: "n + cap - 1 < Suc ?q * cap"
    using assms by (metis dividend_less_div_times mult.commute mult_Suc_right add.commute mult_Suc)
  have a: "(of_nat n :: rat) \<le> of_nat ?q * of_nat cap"
  proof -
    have "n \<le> ?q * cap" using lt by simp
    then have "(of_nat n :: rat) \<le> of_nat (?q * cap)" by (simp only: of_nat_le_iff)
    then show ?thesis by simp
  qed
  have b: "(of_nat ?q - 1) * of_nat cap < (of_nat n :: rat)"
  proof (cases "?q = 0")
    case True
    then show ?thesis using assms by (simp add: mult_less_0_iff)
  next
    case False
    then have "(?q - 1) * cap + cap \<le> n + cap - 1" using le by (simp add: diff_mult_distrib)
    then have "(?q - 1) * cap < n" using assms by arith
    then have "(of_nat ((?q - 1) * cap) :: rat) < of_nat n" by (simp only: of_nat_less_iff)
    then show ?thesis using False by (simp add: of_nat_diff)
  qed
  have c: "(0::rat) < of_nat cap" using assms by simp
  have "(of_nat n :: rat) / of_nat cap \<le> of_nat ?q" using a c by (simp add: pos_divide_le_eq)
  moreover have "of_nat ?q - 1 < (of_nat n :: rat) / of_nat cap" using b c by (simp add: pos_less_divide_eq)
  ultimately have "\<lceil>(of_nat n :: rat) / of_nat cap\<rceil> = int ?q"
    by (intro ceiling_unique) simp_all
  then show ?thesis by simp
qed

lemma slice_start_less:
  assumes "0 < (cap::nat)" and "k < (n + cap - 1) div cap"
  shows "k * cap < n"
proof -
  have "Suc k \<le> (n + cap - 1) div cap" using assms(2) by simp
  then have "Suc k * cap \<le> n + cap - 1"
    using assms(1) by (simp only: less_eq_div_iff_mult_less_eq)
  then show ?thesis using assms(1) by simp
qed

lemma concat_slices:
  assumes "0 < cap"
  shows "(length xs + cap - 1) div cap = m \<Longrightarrow>
         concat (map (\<lambda>k. take cap (drop (k * cap) xs)) [0..<m]) = xs"
proof (induction m arbitrary: xs)
  case 0
  have "xs = []"
  proof (rule ccontr)
    assume "xs \<noteq> []"
    then have "cap \<le> length xs + cap - 1" by (cases xs) simp_all
    then have "1 \<le> (length xs + cap - 1) div cap"
      using assms by (simp only: less_eq_div_iff_mult_less_eq)
    then show False using "0.prems" by simp
  qed
  then show ?case by simp
next
  case (Suc m)
  have ne: "0 < length xs"
  proof (rule ccontr)
    assume "\<not> 0 < length xs"
    then have "(length xs + cap - 1) div cap = 0" using assms by simp
    then show False using Suc.prems by simp
  qed
  from page_count_step [OF assms ne] Suc.prems
  have "(length (drop cap xs) + cap - 1) div cap = m" by simp
  from Suc.IH [OF this]
  have ih: "concat (map (\<lambda>k. take cap (drop (k * cap) (drop cap xs))) [0..<m]) = drop cap xs" .
  have sh: "map (\<lambda>k. take cap (drop (k * cap) xs)) [0..<Suc m] =
        take cap xs # map (\<lambda>k. take cap (drop (k * cap) (drop cap xs))) [0..<m]"
  proof -
    have "[0..<Suc m] = 0 # map Suc [0..<m]" by (simp only: upt_conv_Cons zero_less_Suc map_Suc_upt)
    then have "map (\<lambda>k. take cap (drop (k * cap) xs)) [0..<Suc m] =
        take cap xs # map (\<lambda>k. take cap (drop (Suc k * cap) xs)) [0..<m]"
      by (simp add: comp_def del: upt_Suc)
    moreover have "\<And>k. drop (Suc k * cap) xs = drop (k * cap) (drop cap xs)"
      by (simp add: add.commute)
    ultimately show ?thesis by simp
  qed
  show ?case unfolding sh using ih by simp
qed

lemma driver_pages:
  assumes "1 \<le> rows" and "1 \<le> cols"
    and "document_written (create_pdf_from_images e dir xs rows cols)"
  shows "length (pdf_pages (create_pdf_from_images e dir xs rows cols)) =
           (length xs + nat (rows * cols) - 1) div nat (rows * cols) \<and>
         (\<forall>k < length (pdf_pages (create_pdf_from_images e dir xs rows cols)).
            combine_images_to_page e (take (nat (rows * cols)) (drop (k * nat (rows * cols)) xs))
              rows cols (int (k * nat (rows * cols))) 5 10 =
            Inr (pdf_pages (create_pdf_from_images e dir xs rows cols) ! k))"
proof -
  let ?r = "create_pdf_from_images e dir xs rows cols"
  have pos: "0 < rows * cols" using assms(1,2) by simp
  from run_written [OF assms(3)] obtain files where
    l: "pages_loop e xs rows cols 0 (case dir of None \<Rightarrow> [] | Some fs \<Rightarrow> fs) [] =
          (None, files, pdf_pages ?r)"
    by blast
  from pages_loop_pages [OF pos l] show ?thesis by simp
qed

lemma page_count_multiple:
  assumes "0 < (cap::nat)"
  shows "(m * cap + cap - 1) div cap = m"
proof -
  have "cap * m = m * cap" by (rule mult.commute)
  then have "cap * m \<le> m * cap + cap - 1" using assms by arith
  moreover have "cap * Suc m = m * cap + cap" by simp
  then have "m * cap + cap - 1 < cap * Suc m" using assms by arith
  ultimately show ?thesis by (rule div_nat_eqI)
qed

lemma page_count_one_more:
  assumes "0 < (cap::nat)"
  shows "(m * cap + 1 + cap - 1) div cap = m + 1"
proof -
  have e: "cap * (m + 1) = m * cap + cap" by simp
  then have "cap * (m + 1) \<le> m * cap + 1 + cap - 1" by arith
  moreover have "cap * Suc (m + 1) = m * cap + cap + cap" by simp
  then have "m * cap + 1 + cap - 1 < cap * Suc (m + 1)" using assms by arith
  ultimately show ?thesis by (rule div_nat_eqI)
qed

lemma drop_to_last:
  assumes "length xs = d + 1"
  shows "drop d xs = [last xs]"
proof -
  have "length (drop d xs) = 1" using assms by simp
  then obtain x where x: "drop d xs = [x]" by (cases "drop d xs") simp_all
  have "last xs = last (drop d xs)" using assms by (simp add: last_drop)
  then show ?thesis using x by simp
qed

lemma shifted_upt: "map (\<lambda>i. g (d + i)) [0..<m] = map g [d..<d + m]"
proof -
  have "map (\<lambda>i. i + d) [0..<m] = [d..<m + d]" by (rule map_add_upt)
  then have "map g (map (\<lambda>i. i + d) [0..<m]) = map g [d..<d + m]" by (simp add: add.commute)
  then show ?thesis by (simp add: comp_def add.commute)
qed

lemma slice_of_upt:
  "take c (drop d (map g [0..<n])) = map g [d..<min (d + c) n]"
proof (cases "d + c \<le> n")
  case True
  then have "take c [d..<n] = [d..<d + c]" by (rule take_upt)
  then show ?thesis using True by (simp add: take_map drop_map min_def)
next
  case False
  then have "length [d..<n] \<le> c" by simp
  then have "take c [d..<n] = [d..<n]" by (rule take_all)
  then show ?thesis using False by (simp add: take_map drop_map min_def)
qed

lemma page_labels:
  assumes "combine_images_to_page e (take c (drop d xs)) rows cols (int d) p fs = Inr page"
    and "0 < c"
  shows "labels (canvas_ops page) = map (\<lambda>j. label_text (int j + 1)) [d..<min (d + c) (length xs)]"
proof -
  from combine_content [OF assms(1)]
  have l: "labels (canvas_ops page) =
      map (\<lambda>k. label_text (int d + int k + 1)) [0..<length (take c (drop d xs))]"
    by blast
  have "map (\<lambda>k. label_text (int d + int k + 1)) [0..<length (take c (drop d xs))] =
        map (\<lambda>j. label_text (int j + 1)) [d..<d + length (take c (drop d xs))]"
    using shifted_upt [of "\<lambda>j. label_text (int j + 1)" d "length (take c (drop d xs))"] by simp
  moreover have "[d..<d + length (take c (drop d xs))] = [d..<min (d + c) (length xs)]"
  proof (cases "d \<le> length xs")
    case True
    have "length (take c (drop d xs)) = min (length xs - d) c" by simp
    then have "d + length (take c (drop d xs)) = min (d + c) (length xs)" using True by arith
    then show ?thesis by simp
  next
    case False
    then show ?thesis by simp
  qed
  ultimately show ?thesis using l by simp
qed

lemma digit_value_digit: "(d::nat) < 10 \<Longrightarrow> digit_value (''0123456789'' ! d) = d"
proof -
  assume "d < 10"
  then have "d \<in> set [0..<10]" by simp
  moreover have "list_all (\<lambda>d. digit_value (''0123456789'' ! d) = d) [0..<10]" by code_simp
  ultimately show ?thesis by (simp only: list_all_iff)
qed

lemma read_nat_snoc: "read_nat (ds @ [c]) = 10 * read_nat ds + digit_value c"
  by (simp add: read_nat_def)

lemma read_str_nat: "read_nat (str_nat n) = n"
proof (induction n rule: str_nat.induct)
  case (1 n)
  show ?case
  proof (cases "n < 10")
    case True
    then have "str_nat n = [''0123456789'' ! n]" by (simp add: str_nat.simps [of n])
    then show ?thesis using True by (simp add: read_nat_def digit_value_digit)
  next
    case False
    then have s: "str_nat n = str_nat (n div 10) @ [''0123456789'' ! (n mod 10)]"
      by (simp add: str_nat.simps [of n])
    have "read_nat (str_nat (n div 10)) = n div 10" using False by (rule "1.IH")
    then show ?thesis unfolding s read_nat_snoc by (simp add: digit_value_digit)
  qed
qed

lemma str_nat_inj: "str_nat a = str_nat b \<Longrightarrow> a = b"
  by (metis read_str_nat)

lemma label_text_inj:
  assumes "0 \<le> a" and "0 \<le> b" and "label_text a = label_text b"
  shows "a = b"
proof -
  from assms(3) have "str a = str b" by (simp add: label_text_def)
  then have "str_nat (nat a) = str_nat (nat b)" using assms(1,2) by (simp add: str_def)
  then have "nat a = nat b" by (rule str_nat_inj)
  then show ?thesis using assms(1,2) by simp
qed

lemma labels_distinct: "distinct (map (\<lambda>j. label_text (int j + 1)) [d..<n])"
proof -
  have "inj_on (\<lambda>j. label_text (int j + 1)) (set [d..<n])"
  proof (rule inj_onI)
    fix x y
    assume "label_text (int x + 1) = label_text (int y + 1)"
    then have "int x + 1 = int y + 1" by (intro label_text_inj) simp_all
    then show "x = y" by simp
  qed
  then show ?thesis by (simp add: distinct_map)
qed

lemma pages_loop_completes:
  assumes "0 < rows * cols"
    and "load_font e (font_size_px (rounding e) 10) font_candidates = Some fnt"
    and "\<forall>path \<in> set xs. drawable e rows cols path"
  shows "\<exists>files' pdf'. pages_loop e xs rows cols i files pdf = (None, files', pdf')"
  using assms
proof (induction e xs rows cols i files pdf rule: pages_loop.induct)
  case (1 e xs rows cols i files pdf)
  let ?cap = "nat (rows * cols)"
  show ?case
  proof (cases "length xs \<le> i")
    case True
    then show ?thesis by (simp add: pages_loop.simps)
  next
    case False
    then have go: "\<not> (rows * cols \<le> 0 \<or> length xs \<le> i)" using "1.prems"(1) by simp
    have nz: "cols \<noteq> 0" "rows \<noteq> 0" using "1.prems"(1) by auto
    have "set (take ?cap (drop i xs)) \<subseteq> set xs"
      by (meson set_take_subset set_drop_subset subset_trans)
    then have d: "\<forall>path \<in> set (take ?cap (drop i xs)). drawable e rows cols path"
      using "1.prems"(3) by blast
    from combine_drawable [OF nz "1.prems"(2) d] obtain b where
      c: "combine_images_to_page e (take ?cap (drop i xs)) rows cols (int i) 5 10 = Inr b"
      by blast
    have "pages_loop e xs rows cols i files pdf =
          pages_loop e xs rows cols (i + ?cap)
            (List.insert (page_file (int i div (rows * cols) + 1)) files) (pdf @ [b])"
      using go c by (simp add: pages_loop.simps [of e xs rows cols i])
    then show ?thesis using "1.IH" [OF go c "1.prems"] by simp
  qed
qed

lemma run_completes:
  assumes "1 \<le> rows" and "1 \<le> cols" and "mkdir_ok e" and "output_ok e"
    and "load_font e (font_size_px (rounding e) 10) font_candidates = Some fnt"
    and "\<forall>path \<in> set xs. drawable e rows cols path"
  shows "document_written (create_pdf_from_images e dir xs rows cols)"
proof -
  have pos: "0 < rows * cols" using assms(1,2) by simp
  from pages_loop_completes [OF pos assms(5,6)] obtain files' pdf' where
    "pages_loop e xs rows cols 0 (case dir of None \<Rightarrow> [] | Some fs \<Rightarrow> fs) [] = (None, files', pdf')"
    by blast
  moreover have "rows \<noteq> 0" and "cols \<noteq> 0" using assms(1,2) by simp_all
  ultimately show ?thesis using assms(3,4)
    by (simp add: create_pdf_from_images_def Let_def split: prod.splits option.splits)
qed

section \<open>C1: the pages of a run\<close>

text \<open>
  Claim C1. For a grid of at least one row and one column and a non-empty image list, in
  an environment where the directory can be made, a face loads, every image of the list
  can be drawn and the document can be written, the run writes the document and it has
  \<open>ceil(count / capacity)\<close> pages, where the capacity is \<open>rows * cols\<close>. Page \<open>k\<close> shows the
  images \<open>k * capacity\<close> up to \<open>(k + 1) * capacity\<close> of the list, in their order, and at
  least one; the pages together show the list. A list of \<open>m * capacity\<close> images gives \<open>m\<close> pages, so no empty page at the
  end, and a list of \<open>m * capacity + 1\<close> images gives one page more, which shows the last
  image alone.
\<close>

theorem C1_pagination:
  fixes dir :: "string list option"
  assumes "1 \<le> rows" and "1 \<le> cols" and "image_list \<noteq> []"
    and "mkdir_ok e" and "output_ok e"
    and "load_font e (font_size_px (rounding e) 10) font_candidates = Some fnt"
    and "\<forall>path \<in> set image_list. drawable e rows cols path"
  defines "pages \<equiv> pdf_pages (create_pdf_from_images e dir image_list rows cols)"
    and "capacity \<equiv> nat (rows * cols)"
  shows "document_written (create_pdf_from_images e dir image_list rows cols) \<and>
         int (length pages) = \<lceil>(of_nat (length image_list) :: rat) / of_nat capacity\<rceil> \<and>
         (\<forall>k < length pages.
            pasted (canvas_ops (pages ! k)) = take capacity (drop (k * capacity) image_list) \<and>
            pasted (canvas_ops (pages ! k)) \<noteq> []) \<and>
         concat (map (\<lambda>page. pasted (canvas_ops page)) pages) = image_list \<and>
         (\<forall>m. length image_list = m * capacity \<longrightarrow> length pages = m) \<and>
         (\<forall>m. length image_list = m * capacity + 1 \<longrightarrow>
            length pages = m + 1 \<and> pasted (canvas_ops (last pages)) = [last image_list])"
proof -
  have cap: "0 < capacity" using assms(1,2) by (simp add: capacity_def)
  have w: "document_written (create_pdf_from_images e dir image_list rows cols)"
    using assms(1,2,4,5,6,7) by (rule run_completes)
  note dp = driver_pages [OF assms(1,2) w, folded pages_def capacity_def]
  then have len: "length pages = (length image_list + capacity - 1) div capacity"
    and comb: "\<forall>k < length pages.
      combine_images_to_page e (take capacity (drop (k * capacity) image_list)) rows cols
        (int (k * capacity)) 5 10 = Inr (pages ! k)"
    by blast+
  have a: "int (length pages) = \<lceil>(of_nat (length image_list) :: rat) / of_nat capacity\<rceil>"
    unfolding len using cap by (rule page_count_ceiling)
  have past: "\<And>k. k < length pages \<Longrightarrow>
      pasted (canvas_ops (pages ! k)) = take capacity (drop (k * capacity) image_list)"
    using comb combine_content by blast
  have b: "\<forall>k < length pages.
            pasted (canvas_ops (pages ! k)) = take capacity (drop (k * capacity) image_list) \<and>
            pasted (canvas_ops (pages ! k)) \<noteq> []"
  proof (intro allI impI)
    fix k
    assume k: "k < length pages"
    then have "k * capacity < length image_list"
      unfolding len using cap by (intro slice_start_less)
    then have "take capacity (drop (k * capacity) image_list) \<noteq> []" using cap by simp
    then show "pasted (canvas_ops (pages ! k)) = take capacity (drop (k * capacity) image_list) \<and>
            pasted (canvas_ops (pages ! k)) \<noteq> []"
      using past [OF k] by simp
  qed
  have "map (\<lambda>page. pasted (canvas_ops page)) pages =
        map (\<lambda>k. take capacity (drop (k * capacity) image_list)) [0..<length pages]"
    using past by (intro nth_equalityI) simp_all
  then have c: "concat (map (\<lambda>page. pasted (canvas_ops page)) pages) = image_list"
    using concat_slices [OF cap len [symmetric]] by simp
  have d: "\<forall>m. length image_list = m * capacity \<longrightarrow> length pages = m"
    unfolding len using page_count_multiple [OF cap] by simp
  have e: "\<forall>m. length image_list = m * capacity + 1 \<longrightarrow>
            length pages = m + 1 \<and> pasted (canvas_ops (last pages)) = [last image_list]"
  proof (intro allI impI)
    fix m
    assume n: "length image_list = m * capacity + 1"
    have l: "length pages = m + 1"
      unfolding len n using cap by (rule page_count_one_more)
    then have "pages \<noteq> []" by auto
    then have "last pages = pages ! (length pages - 1)" by (rule last_conv_nth)
    then have "last pages = pages ! m" using l by simp
    moreover have "pasted (canvas_ops (pages ! m)) = take capacity (drop (m * capacity) image_list)"
      using past [of m] l by simp
    moreover have "drop (m * capacity) image_list = [last image_list]"
      using n by (rule drop_to_last)
    ultimately show "length pages = m + 1 \<and> pasted (canvas_ops (last pages)) = [last image_list]"
      using l cap by simp
  qed
  show ?thesis using w a b c d e by blast
qed

text \<open>Three images on a grid of two rows and one column: two pages, the second with the third image.\<close>

theorem C1_pagination_witness:
  "(1::int) \<le> 2 \<and> (1::int) \<le> 1 \<and> [''a.png'', ''b.png'', ''c.png''] \<noteq> [] \<and>
   mkdir_ok example_env \<and> output_ok example_env \<and>
   load_font example_env (font_size_px (rounding example_env) 10) font_candidates =
     Some (''DejaVuSans.ttf'', 41) \<and>
   drawable example_env 2 1 ''a.png'' \<and> drawable example_env 2 1 ''b.png'' \<and>
   drawable example_env 2 1 ''c.png'' \<and>
   document_written (create_pdf_from_images example_env None [''a.png'', ''b.png'', ''c.png''] 2 1) \<and>
   length (pdf_pages (create_pdf_from_images example_env None [''a.png'', ''b.png'', ''c.png''] 2 1)) = 2 \<and>
   pasted (canvas_ops
     (pdf_pages (create_pdf_from_images example_env None [''a.png'', ''b.png'', ''c.png''] 2 1) ! 0)) =
     [''a.png'', ''b.png''] \<and>
   pasted (canvas_ops
     (last (pdf_pages (create_pdf_from_images example_env None [''a.png'', ''b.png'', ''c.png''] 2 1)))) =
     [''c.png'']"
proof -
  let ?xs = "[''a.png'', ''b.png'', ''c.png'']"
  let ?r = "create_pdf_from_images example_env None ?xs 2 1"
  have g: "(1::int) \<le> 2" "(1::int) \<le> 1" "?xs \<noteq> []" by simp_all
  have io: "mkdir_ok example_env" "output_ok example_env" by (simp_all add: example_env_def)
  have "font_size_px (rounding example_env) 10 = 41"
    using font_size_px_default [OF exact_rounding] by (simp add: example_env_def)
  then have lf: "load_font example_env (font_size_px (rounding example_env) 10) font_candidates =
     Some (''DejaVuSans.ttf'', 41)"
    by (simp add: font_candidates_def example_env_def)
  have d: "drawable example_env 2 1 ''a.png''" "drawable example_env 2 1 ''b.png''"
    "drawable example_env 2 1 ''c.png''"
    by code_simp+
  then have da: "\<forall>path \<in> set ?xs. drawable example_env 2 1 path" by simp
  note t = C1_pagination [OF g io lf da, of None]
  from t have w: "document_written ?r" by blast
  from t have "\<forall>m. length ?xs = m * nat (2 * 1) + 1 \<longrightarrow>
      length (pdf_pages ?r) = m + 1 \<and> pasted (canvas_ops (last (pdf_pages ?r))) = [last ?xs]"
    by blast
  then have "length ?xs = 1 * nat (2 * 1) + 1 \<longrightarrow>
      length (pdf_pages ?r) = 1 + 1 \<and> pasted (canvas_ops (last (pdf_pages ?r))) = [last ?xs]"
    by (rule spec)
  then have l: "length (pdf_pages ?r) = 2" and z: "pasted (canvas_ops (last (pdf_pages ?r))) = [''c.png'']"
    by simp_all
  from t have "\<forall>k < length (pdf_pages ?r).
      pasted (canvas_ops (pdf_pages ?r ! k)) = take (nat (2 * 1)) (drop (k * nat (2 * 1)) ?xs) \<and>
      pasted (canvas_ops (pdf_pages ?r ! k)) \<noteq> []"
    by blast
  then have "pasted (canvas_ops (pdf_pages ?r ! 0)) = take (nat (2 * 1)) (drop (0 * nat (2 * 1)) ?xs)"
    using l by simp
  then have f: "pasted (canvas_ops (pdf_pages ?r ! 0)) = [''a.png'', ''b.png'']" by simp
  show ?thesis using g io lf d w l f z by simp
qed

section \<open>C2: the ordinals of a run\<close>

text \<open>
  Claim C2. The label of an ordinal is the ordinal in decimal between parentheses. In a
  run that writes the document, on a grid of at least one row and one column, the labels
  of all pages in order are the labels of 1, 2, ... up to the number of images: image
  \<open>j\<close> of the list, counted from 0, is stamped \<open>j + 1\<close>. No label occurs twice. Page \<open>k\<close>
  carries the labels of \<open>k * capacity + 1\<close> up to the end of its slice, so its first label
  is that of \<open>k * capacity + 1\<close> however many images the page has.
\<close>

theorem C2_ordinals:
  assumes "1 \<le> rows" and "1 \<le> cols"
    and "document_written (create_pdf_from_images e dir image_list rows cols)"
  defines "pages \<equiv> pdf_pages (create_pdf_from_images e dir image_list rows cols)"
    and "capacity \<equiv> nat (rows * cols)"
  shows "label_text number = ''('' @ str number @ '')'' \<and>
         concat (map (\<lambda>page. labels (canvas_ops page)) pages) =
           map (\<lambda>j. label_text (int j + 1)) [0..<length image_list] \<and>
         distinct (concat (map (\<lambda>page. labels (canvas_ops page)) pages)) \<and>
         (\<forall>k < length pages.
            labels (canvas_ops (pages ! k)) =
              map (\<lambda>j. label_text (int j + 1))
                [k * capacity..<min (k * capacity + capacity) (length image_list)] \<and>
            hd (labels (canvas_ops (pages ! k))) = label_text (int (k * capacity) + 1))"
proof -
  let ?g = "\<lambda>j. label_text (int j + 1)"
  let ?L = "map ?g [0..<length image_list]"
  have cap: "0 < capacity" using assms(1,2) by (simp add: capacity_def)
  note dp = driver_pages [OF assms(1,2,3), folded pages_def capacity_def]
  then have len: "length pages = (length image_list + capacity - 1) div capacity"
    and comb: "\<forall>k < length pages.
      combine_images_to_page e (take capacity (drop (k * capacity) image_list)) rows cols
        (int (k * capacity)) 5 10 = Inr (pages ! k)"
    by blast+
  have lab: "\<And>k. k < length pages \<Longrightarrow>
      labels (canvas_ops (pages ! k)) =
        map ?g [k * capacity..<min (k * capacity + capacity) (length image_list)]"
    using comb page_labels [OF _ cap] by blast
  have "map (\<lambda>page. labels (canvas_ops page)) pages =
        map (\<lambda>k. take capacity (drop (k * capacity) ?L)) [0..<length pages]"
    using lab by (intro nth_equalityI) (simp_all add: slice_of_upt)
  moreover have "(length ?L + capacity - 1) div capacity = length pages" using len by simp
  ultimately have a: "concat (map (\<lambda>page. labels (canvas_ops page)) pages) = ?L"
    using concat_slices [OF cap, of ?L "length pages"] by simp
  have b: "distinct (concat (map (\<lambda>page. labels (canvas_ops page)) pages))"
    unfolding a by (rule labels_distinct)
  have c: "\<forall>k < length pages.
            labels (canvas_ops (pages ! k)) =
              map ?g [k * capacity..<min (k * capacity + capacity) (length image_list)] \<and>
            hd (labels (canvas_ops (pages ! k))) = label_text (int (k * capacity) + 1)"
  proof (intro allI impI)
    fix k
    assume k: "k < length pages"
    then have "k * capacity < length image_list"
      unfolding len using cap by (intro slice_start_less)
    then have "k * capacity < min (k * capacity + capacity) (length image_list)" using cap by simp
    then have "[k * capacity..<min (k * capacity + capacity) (length image_list)] =
        k * capacity # [Suc (k * capacity)..<min (k * capacity + capacity) (length image_list)]"
      by (rule upt_conv_Cons)
    then have "hd (map ?g [k * capacity..<min (k * capacity + capacity) (length image_list)]) =
        label_text (int (k * capacity) + 1)"
      by simp
    then show "labels (canvas_ops (pages ! k)) =
              map ?g [k * capacity..<min (k * capacity + capacity) (length image_list)] \<and>
            hd (labels (canvas_ops (pages ! k))) = label_text (int (k * capacity) + 1)"
      using lab [OF k] by simp
  qed
  have d: "label_text number = ''('' @ str number @ '')''" by (simp add: label_text_def)
  show ?thesis using a b c d by blast
qed

text \<open>Three images on two pages of two cells are stamped (1), (2) and (3).\<close>

theorem C2_ordinals_witness:
  "(1::int) \<le> 2 \<and> (1::int) \<le> 1 \<and>
   document_written (create_pdf_from_images example_env None [''a.png'', ''b.png'', ''c.png''] 2 1) \<and>
   concat (map (\<lambda>page. labels (canvas_ops page))
     (pdf_pages (create_pdf_from_images example_env None [''a.png'', ''b.png'', ''c.png''] 2 1))) =
     [''(1)'', ''(2)'', ''(3)'']"
proof -
  let ?xs = "[''a.png'', ''b.png'', ''c.png'']"
  let ?r = "create_pdf_from_images example_env None ?xs 2 1"
  have g: "(1::int) \<le> 2" "(1::int) \<le> 1" by simp_all
  have w: "document_written ?r" by code_simp
  from C2_ordinals [OF g w]
  have "concat (map (\<lambda>page. labels (canvas_ops page)) (pdf_pages ?r)) =
      map (\<lambda>j. label_text (int j + 1)) [0..<length ?xs]"
    by blast
  moreover have "map (\<lambda>j. label_text (int j + 1)) [0..<length ?xs] = [''(1)'', ''(2)'', ''(3)'']"
    by code_simp
  ultimately show ?thesis using g w by simp
qed

section \<open>C3: row-major cell assignment\<close>

text \<open>
  Claim C3. On a grid of at least one row and one column, the image at local index \<open>i\<close>
  below the capacity \<open>rows * cols\<close> goes to the cell in row \<open>i div cols\<close> and column
  \<open>i mod cols\<close>, which lies inside the grid; the top-left corner of that cell is
  \<open>(col * img_max_width, row * img_max_height)\<close>, and the image is pasted at that corner
  plus half of the room its size leaves in the cell. On the grid of 4 rows and 3 columns,
  index 0 is cell (0, 0), index 4 is cell (1, 1) and index 11 is cell (3, 2).
\<close>

theorem C3_row_major_cells:
  assumes "1 \<le> rows" and "1 \<le> cols" and "int i < rows * cols"
  shows "cell_row rows cols i = int i div cols \<and> cell_col rows cols i = int i mod cols \<and>
         0 \<le> cell_row rows cols i \<and> cell_row rows cols i < rows \<and>
         0 \<le> cell_col rows cols i \<and> cell_col rows cols i < cols \<and>
         x_start r rows cols i = cell_col rows cols i * img_max_width r cols \<and>
         y_start r rows cols i = cell_row rows cols i * img_max_height r rows \<and>
         (\<forall>ops. draw_image e rows cols s p f i path = Inr ops \<longrightarrow>
            (\<exists>w h. hd ops =
               Paste path (w, h)
                 (x_start (rounding e) rows cols i + (img_max_width (rounding e) cols - w) div 2,
                  y_start (rounding e) rows cols i + (img_max_height (rounding e) rows - h) div 2))) \<and>
         (cell_row 4 3 0, cell_col 4 3 0) = (0, 0) \<and>
         (cell_row 4 3 4, cell_col 4 3 4) = (1, 1) \<and>
         (cell_row 4 3 11, cell_col 4 3 11) = (3, 2)"
proof -
  have idx: "idx_in_page rows cols i = int i" using assms(3) by (rule idx_in_page_small)
  have rc: "cell_row rows cols i = int i div cols" "cell_col rows cols i = int i mod cols"
    by (simp_all add: cell_row_def cell_col_def idx)
  have rng: "0 \<le> int i div cols" "int i div cols < rows" "0 \<le> int i mod cols" "int i mod cols < cols"
    using assms int_div_less [of cols "int i" rows] by (simp_all add: pos_imp_zdiv_nonneg_iff)
  have xy: "x_start r rows cols i = cell_col rows cols i * img_max_width r cols"
    "y_start r rows cols i = cell_row rows cols i * img_max_height r rows"
    by (simp_all add: x_start_def y_start_def)
  have dr: "\<forall>ops. draw_image e rows cols s p f i path = Inr ops \<longrightarrow>
            (\<exists>w h. hd ops =
               Paste path (w, h)
                 (x_start (rounding e) rows cols i + (img_max_width (rounding e) cols - w) div 2,
                  y_start (rounding e) rows cols i + (img_max_height (rounding e) rows - h) div 2))"
    by (auto simp: draw_image_def Let_def x_center_def y_center_def split: option.splits if_splits)
  have ex: "(cell_row 4 3 0, cell_col 4 3 0) = (0, 0)" "(cell_row 4 3 4, cell_col 4 3 4) = (1, 1)"
    "(cell_row 4 3 11, cell_col 4 3 11) = (3, 2)"
    by (simp_all add: cell_row_def cell_col_def idx_in_page_def)
  show ?thesis using rc rng xy dr ex by simp
qed

text \<open>The last cell of a 2 by 2 grid, whose cells are 1114 by 1627 pixels.\<close>

theorem C3_row_major_cells_witness:
  "(1::int) \<le> 2 \<and> (1::int) \<le> 2 \<and> int 3 < 2 * 2 \<and>
   cell_row 2 2 3 = 1 \<and> cell_col 2 2 3 = 1 \<and>
   x_start (\<lambda>x. x) 2 2 3 = 1114 \<and> y_start (\<lambda>x. x) 2 2 3 = 1627"
  using C3_row_major_cells [where rows = 2 and cols = 2 and i = 3 and r = "\<lambda>x. x"] page_width_px_eq [OF exact_rounding]
    page_height_px_eq [OF exact_rounding]
  by (simp add: img_max_width_def img_max_height_def)

section \<open>C4: page and cell geometry\<close>

text \<open>
  Claim C4 as stated reads the drawable size as one floor of the product. The source truncates
  twice: the size in points first (lines 61 and 62), then the product with the density
  (lines 64 and 65). The two differ on both axes: 2229 against 2230 pixels in width and
  3254 against 3257 in height.
\<close>

theorem C4_counterexample:
  "page_width_px (\<lambda>x. x) = 2229 \<and> spec_drawable_px (59528 / 100) = 2230 \<and>
   page_height_px (\<lambda>x. x) = 3254 \<and> spec_drawable_px (84189 / 100) = 3257"
  using page_width_px_eq [OF exact_rounding] page_height_px_eq [OF exact_rounding]
  by (simp add: spec_drawable_px_def MARGIN_PT_def DPI_def PT_PER_INCH_def floor_eq_iff)

text \<open>
  Claim C4, amended. For every admissible rounding, the drawable size in points is the
  floor of the physical size less both margins, and the drawable size in pixels is the
  floor of that integer times the density: 2229 by 3254 pixels. The largest cell width is
  the drawable width integer-divided by the columns and the largest cell height the
  drawable height integer-divided by the rows; the remainder, less than the divisor, stays
  unused, and with at least one row and one column the geometry raises nothing. Every
  composed page has the drawable size.
\<close>

theorem C4_geometry:
  assumes "binary64_rounding (rounding e)"
  shows "page_width_pt (rounding e) = \<lfloor>(59528 / 100 :: rat) - 2 * of_int MARGIN_PT\<rfloor> \<and>
         page_height_pt (rounding e) = \<lfloor>(84189 / 100 :: rat) - 2 * of_int MARGIN_PT\<rfloor> \<and>
         page_width_px (rounding e) =
           \<lfloor>of_int (page_width_pt (rounding e)) * (of_int DPI / of_int PT_PER_INCH :: rat)\<rfloor> \<and>
         page_height_px (rounding e) =
           \<lfloor>of_int (page_height_pt (rounding e)) * (of_int DPI / of_int PT_PER_INCH :: rat)\<rfloor> \<and>
         page_width_px (rounding e) = 2229 \<and> page_height_px (rounding e) = 3254 \<and>
         (1 \<le> cols \<longrightarrow>
            img_max_width (rounding e) cols = page_width_px (rounding e) div cols \<and>
            cols * img_max_width (rounding e) cols \<le> page_width_px (rounding e) \<and>
            page_width_px (rounding e) - cols * img_max_width (rounding e) cols < cols) \<and>
         (1 \<le> rows \<longrightarrow>
            img_max_height (rounding e) rows = page_height_px (rounding e) div rows \<and>
            rows * img_max_height (rounding e) rows \<le> page_height_px (rounding e) \<and>
            page_height_px (rounding e) - rows * img_max_height (rounding e) rows < rows) \<and>
         (1 \<le> cols \<and> 1 \<le> rows \<longrightarrow>
            combine_images_to_page e [] rows cols s p f \<noteq> Inl ZeroDivisionError) \<and>
         (\<forall>page. combine_images_to_page e paths rows cols s p f = Inr page \<longrightarrow>
            canvas_size page = (page_width_px (rounding e), page_height_px (rounding e)))"
proof -
  note r = assms
  have wpt: "page_width_pt (rounding e) = 535" and hpt: "page_height_pt (rounding e) = 781"
    and wpx: "page_width_px (rounding e) = 2229" and hpx: "page_height_px (rounding e) = 3254"
    using r by (simp_all add: page_width_pt_eq page_height_pt_eq page_width_px_eq page_height_px_eq)
  have a: "page_width_pt (rounding e) = \<lfloor>(59528 / 100 :: rat) - 2 * of_int MARGIN_PT\<rfloor>"
    by (simp add: wpt MARGIN_PT_def floor_eq_iff)
  have b: "page_height_pt (rounding e) = \<lfloor>(84189 / 100 :: rat) - 2 * of_int MARGIN_PT\<rfloor>"
    by (simp add: hpt MARGIN_PT_def floor_eq_iff)
  have c: "page_width_px (rounding e) =
        \<lfloor>of_int (page_width_pt (rounding e)) * (of_int DPI / of_int PT_PER_INCH :: rat)\<rfloor>"
    by (simp add: wpx wpt DPI_def PT_PER_INCH_def floor_eq_iff)
  have d: "page_height_px (rounding e) =
        \<lfloor>of_int (page_height_pt (rounding e)) * (of_int DPI / of_int PT_PER_INCH :: rat)\<rfloor>"
    by (simp add: hpx hpt DPI_def PT_PER_INCH_def floor_eq_iff)
  have w: "1 \<le> cols \<longrightarrow>
            img_max_width (rounding e) cols = page_width_px (rounding e) div cols \<and>
            cols * img_max_width (rounding e) cols \<le> page_width_px (rounding e) \<and>
            page_width_px (rounding e) - cols * img_max_width (rounding e) cols < cols"
    using div_remainder [of cols "page_width_px (rounding e)"] by (simp add: img_max_width_def)
  have h: "1 \<le> rows \<longrightarrow>
            img_max_height (rounding e) rows = page_height_px (rounding e) div rows \<and>
            rows * img_max_height (rounding e) rows \<le> page_height_px (rounding e) \<and>
            page_height_px (rounding e) - rows * img_max_height (rounding e) rows < rows"
    using div_remainder [of rows "page_height_px (rounding e)"] by (simp add: img_max_height_def)
  have s: "\<forall>page. combine_images_to_page e paths rows cols s p f = Inr page \<longrightarrow>
            canvas_size page = (page_width_px (rounding e), page_height_px (rounding e))"
    using combine_size [OF r] by (simp add: wpx hpx)
  have z: "1 \<le> cols \<and> 1 \<le> rows \<longrightarrow>
            combine_images_to_page e [] rows cols s p f \<noteq> Inl ZeroDivisionError"
    by (auto simp: combine_images_to_page_def split: option.splits)
  show ?thesis using a b c d w h s z wpx hpx by blast
qed

text \<open>The default grid of 4 rows and 3 columns has cells of 743 by 813 pixels.\<close>

theorem C4_geometry_witness:
  "binary64_rounding (rounding example_env) \<and> (1::int) \<le> 3 \<and> (1::int) \<le> 4 \<and>
   page_width_px (rounding example_env) = 2229 \<and> page_height_px (rounding example_env) = 3254 \<and>
   img_max_width (rounding example_env) 3 = 743 \<and> img_max_height (rounding example_env) 4 = 813"
proof -
  have r: "binary64_rounding (rounding example_env)"
    by (simp add: example_env_def exact_rounding)
  from C4_geometry [OF r, where cols = 3 and rows = 4 and paths = "[]" and s = 0 and p = 5 and f = 10]
  have "page_width_px (rounding example_env) = 2229"
    and "page_height_px (rounding example_env) = 3254"
    and "1 \<le> (3::int) \<longrightarrow>
           img_max_width (rounding example_env) 3 = page_width_px (rounding example_env) div 3"
    and "1 \<le> (4::int) \<longrightarrow>
           img_max_height (rounding example_env) 4 = page_height_px (rounding example_env) div 4"
    by blast+
  then show ?thesis using r by simp
qed

section \<open>C5: fitting and centring an image\<close>

text \<open>
  Claim C5. For an image of native size \<open>(w, h)\<close> and a cell of largest size \<open>(cw, ch)\<close>,
  the fitter takes the one factor \<open>min (cw / w) (ch / h) 1\<close> for both axes, each quotient
  rounded as a float; the target width and height are the floors of the rounded products
  of the native width and height with that factor. The target never exceeds the native
  size, and an image that fits its cell has factor 1 and keeps its native size. The
  composer pastes the image at the top-left corner of its cell plus the floor of half the
  room left on each axis, so that the gap before the image is the gap after it or one
  pixel less.
\<close>

theorem C5_image_fitter:
  assumes "binary64_rounding (rounding e)" and "0 \<le> cw" and "0 \<le> ch"
    and "0 < w" and "w \<le> 2 ^ 53" and "0 < h" and "h \<le> 2 ^ 53"
  shows "scale (rounding e) cw ch w h =
           min (min (rounding e (of_int cw / of_int w)) (rounding e (of_int ch / of_int h))) 1 \<and>
         new_width (rounding e) cw ch w h = \<lfloor>rounding e (of_int w * scale (rounding e) cw ch w h)\<rfloor> \<and>
         new_height (rounding e) cw ch w h = \<lfloor>rounding e (of_int h * scale (rounding e) cw ch w h)\<rfloor> \<and>
         new_width (rounding e) cw ch w h \<le> w \<and> new_height (rounding e) cw ch w h \<le> h \<and>
         (w \<le> cw \<and> h \<le> ch \<longrightarrow>
            scale (rounding e) cw ch w h = 1 \<and>
            new_width (rounding e) cw ch w h = w \<and> new_height (rounding e) cw ch w h = h) \<and>
         (\<forall>ops. draw_image e rows cols s p f i path = Inr ops \<and> image_size e path = Some (w, h) \<longrightarrow>
            (\<exists>nw nh xc yc.
               hd ops = Paste path (nw, nh) (xc, yc) \<and>
               nw = new_width (rounding e) (img_max_width (rounding e) cols)
                      (img_max_height (rounding e) rows) w h \<and>
               nh = new_height (rounding e) (img_max_width (rounding e) cols)
                      (img_max_height (rounding e) rows) w h \<and>
               xc = x_start (rounding e) rows cols i +
                      \<lfloor>(of_int (img_max_width (rounding e) cols - nw) :: rat) / 2\<rfloor> \<and>
               yc = y_start (rounding e) rows cols i +
                      \<lfloor>(of_int (img_max_height (rounding e) rows - nh) :: rat) / 2\<rfloor> \<and>
               xc - x_start (rounding e) rows cols i
                 \<le> x_start (rounding e) rows cols i + img_max_width (rounding e) cols - (xc + nw) \<and>
               x_start (rounding e) rows cols i + img_max_width (rounding e) cols - (xc + nw)
                 \<le> xc - x_start (rounding e) rows cols i + 1 \<and>
               yc - y_start (rounding e) rows cols i
                 \<le> y_start (rounding e) rows cols i + img_max_height (rounding e) rows - (yc + nh) \<and>
               y_start (rounding e) rows cols i + img_max_height (rounding e) rows - (yc + nh)
                 \<le> yc - y_start (rounding e) rows cols i + 1))"
proof -
  let ?r = "rounding e"
  let ?mw = "img_max_width ?r cols" and ?mh = "img_max_height ?r rows"
  have sc: "scale ?r cw ch w h = min (min (?r (of_int cw / of_int w)) (?r (of_int ch / of_int h))) 1"
    by (simp add: scale_def Let_def)
  have nw: "new_width ?r cw ch w h = \<lfloor>?r (of_int w * scale ?r cw ch w h)\<rfloor>"
    and nwle: "new_width ?r cw ch w h \<le> w"
    using new_width_bounds [OF assms(1,2,3,4,5,6)] by blast+
  have nh: "new_height ?r cw ch w h = \<lfloor>?r (of_int h * scale ?r cw ch w h)\<rfloor>"
    and nhle: "new_height ?r cw ch w h \<le> h"
    using new_height_bounds [OF assms(1,2,3,4,6,7)] by blast+
  have fit: "w \<le> cw \<and> h \<le> ch \<longrightarrow>
            scale ?r cw ch w h = 1 \<and> new_width ?r cw ch w h = w \<and> new_height ?r cw ch w h = h"
    using scale_fits [OF assms(1,4) _ assms(6)] new_size_fits [OF assms(1,4) _ assms(5,6) _ assms(7)]
    by blast
  have place: "\<forall>ops. draw_image e rows cols s p f i path = Inr ops \<and> image_size e path = Some (w, h) \<longrightarrow>
            (\<exists>nw nh xc yc.
               hd ops = Paste path (nw, nh) (xc, yc) \<and>
               nw = new_width ?r ?mw ?mh w h \<and> nh = new_height ?r ?mw ?mh w h \<and>
               xc = x_start ?r rows cols i + \<lfloor>(of_int (?mw - nw) :: rat) / 2\<rfloor> \<and>
               yc = y_start ?r rows cols i + \<lfloor>(of_int (?mh - nh) :: rat) / 2\<rfloor> \<and>
               xc - x_start ?r rows cols i \<le> x_start ?r rows cols i + ?mw - (xc + nw) \<and>
               x_start ?r rows cols i + ?mw - (xc + nw) \<le> xc - x_start ?r rows cols i + 1 \<and>
               yc - y_start ?r rows cols i \<le> y_start ?r rows cols i + ?mh - (yc + nh) \<and>
               y_start ?r rows cols i + ?mh - (yc + nh) \<le> yc - y_start ?r rows cols i + 1)"
  proof (intro allI impI)
    fix ops
    assume a: "draw_image e rows cols s p f i path = Inr ops \<and> image_size e path = Some (w, h)"
    from draw_image_paste [of e rows cols s p f i path ops] a
    have h: "hd ops = Paste path (new_width ?r ?mw ?mh w h, new_height ?r ?mw ?mh w h)
                (x_center ?r rows cols i (w, h), y_center ?r rows cols i (w, h))"
      by auto
    have xc: "x_center ?r rows cols i (w, h) =
                x_start ?r rows cols i + (?mw - new_width ?r ?mw ?mh w h) div 2"
      and yc: "y_center ?r rows cols i (w, h) =
                y_start ?r rows cols i + (?mh - new_height ?r ?mw ?mh w h) div 2"
      by (simp_all add: x_center_def y_center_def)
    note bx = centre_bias [of ?mw "new_width ?r ?mw ?mh w h"]
    note by' = centre_bias [of ?mh "new_height ?r ?mw ?mh w h"]
    show "\<exists>nw nh xc yc.
               hd ops = Paste path (nw, nh) (xc, yc) \<and>
               nw = new_width ?r ?mw ?mh w h \<and> nh = new_height ?r ?mw ?mh w h \<and>
               xc = x_start ?r rows cols i + \<lfloor>(of_int (?mw - nw) :: rat) / 2\<rfloor> \<and>
               yc = y_start ?r rows cols i + \<lfloor>(of_int (?mh - nh) :: rat) / 2\<rfloor> \<and>
               xc - x_start ?r rows cols i \<le> x_start ?r rows cols i + ?mw - (xc + nw) \<and>
               x_start ?r rows cols i + ?mw - (xc + nw) \<le> xc - x_start ?r rows cols i + 1 \<and>
               yc - y_start ?r rows cols i \<le> y_start ?r rows cols i + ?mh - (yc + nh) \<and>
               y_start ?r rows cols i + ?mh - (yc + nh) \<le> yc - y_start ?r rows cols i + 1"
      apply (intro exI conjI)
              apply (rule h)
             apply (rule refl)
            apply (rule refl)
      using xc bx apply linarith
      using yc by' apply linarith
      using xc bx apply linarith
      using xc bx apply linarith
      using yc by' apply linarith
      using yc by' apply linarith
      done
  qed
  show ?thesis using sc nw nh nwle nhle fit place by blast
qed

text \<open>An image of 640 by 480 pixels in a cell of 743 by 813 keeps its size.\<close>

theorem C5_image_fitter_witness:
  "binary64_rounding (rounding example_env) \<and>
   scale (rounding example_env) 743 813 640 480 = 1 \<and>
   new_width (rounding example_env) 743 813 640 480 = 640 \<and>
   new_height (rounding example_env) 743 813 640 480 = 480"
proof -
  have r: "binary64_rounding (rounding example_env)"
    by (simp add: example_env_def exact_rounding)
  have p: "(0::int) \<le> 743" "(0::int) \<le> 813" "(0::int) < 640" "(640::int) \<le> 2 ^ 53"
    "(0::int) < 480" "(480::int) \<le> 2 ^ 53"
    by simp_all
  from C5_image_fitter [OF r p]
  have "(640::int) \<le> 743 \<and> (480::int) \<le> 813 \<longrightarrow>
          scale (rounding example_env) 743 813 640 480 = 1 \<and>
          new_width (rounding example_env) 743 813 640 480 = 640 \<and>
          new_height (rounding example_env) 743 813 640 480 = 480"
    by blast
  then show ?thesis using r by simp
qed

section \<open>C6: the target size is not always positive\<close>

text \<open>
  Claim C6 as stated fails on a thin image. An image of 1024 by 1 pixels in a cell of 128
  by 128 pixels has the factor 1/8, and the truncation of 1/8 gives the target height 0. All numbers here are binary fractions, so
  binary64 computes them exactly.
\<close>

theorem C6_counterexample:
  "new_width (\<lambda>x. x) 128 128 1024 1 = 128 \<and> new_height (\<lambda>x. x) 128 128 1024 1 = 0"
  using thin_image_size [OF exact_rounding] .

text \<open>
  Claim C6, amended. For positive native and cell sizes, the target width and height are
  integers from 0 to the native width and height; for an image that fits its cell they
  are the native ones, hence positive.
\<close>

theorem C6_target_size:
  assumes "binary64_rounding rnd" and "0 < cw" and "0 < ch"
    and "0 < w" and "w \<le> 2 ^ 53" and "0 < h" and "h \<le> 2 ^ 53"
  shows "0 \<le> new_width rnd cw ch w h \<and> new_width rnd cw ch w h \<le> w \<and>
         0 \<le> new_height rnd cw ch w h \<and> new_height rnd cw ch w h \<le> h \<and>
         (w \<le> cw \<and> h \<le> ch \<longrightarrow>
            new_width rnd cw ch w h = w \<and> new_height rnd cw ch w h = h \<and>
            0 < new_width rnd cw ch w h \<and> 0 < new_height rnd cw ch w h)"
proof -
  have c: "0 \<le> cw" "0 \<le> ch" using assms by simp_all
  have wb: "0 \<le> new_width rnd cw ch w h \<and> new_width rnd cw ch w h \<le> w"
    using new_width_bounds [OF assms(1) c assms(4,5,6)] by blast
  have hb: "0 \<le> new_height rnd cw ch w h \<and> new_height rnd cw ch w h \<le> h"
    using new_height_bounds [OF assms(1) c assms(4,6,7)] by blast
  have fit: "w \<le> cw \<and> h \<le> ch \<longrightarrow>
            new_width rnd cw ch w h = w \<and> new_height rnd cw ch w h = h"
    using new_size_fits [OF assms(1,4) _ assms(5,6) _ assms(7)] by simp
  show ?thesis using wb hb fit assms(4,6) by simp
qed

text \<open>
  A portrait image and a landscape image, each twice the cell on its longer side and so
  halved, and an image that fits.
\<close>

theorem C6_target_size_witness:
  "binary64_rounding (\<lambda>x. x) \<and>
   new_width (\<lambda>x. x) 743 813 1000 1626 = 500 \<and> new_height (\<lambda>x. x) 743 813 1000 1626 = 813 \<and>
   new_width (\<lambda>x. x) 743 813 1486 1000 = 743 \<and> new_height (\<lambda>x. x) 743 813 1486 1000 = 500 \<and>
   new_width (\<lambda>x. x) 743 813 640 480 = 640 \<and> new_height (\<lambda>x. x) 743 813 640 480 = 480"
proof -
  have a: "new_width (\<lambda>x. x) 743 813 1000 1626 = 500 \<and> new_height (\<lambda>x. x) 743 813 1000 1626 = 813"
    by (simp add: new_width_def new_height_def scale_def py_int_def floor_eq_iff)
  have b: "new_width (\<lambda>x. x) 743 813 1486 1000 = 743 \<and> new_height (\<lambda>x. x) 743 813 1486 1000 = 500"
    by (simp add: new_width_def new_height_def scale_def py_int_def floor_eq_iff)
  show ?thesis
    using C6_target_size [OF exact_rounding, of 743 813 640 480] a b exact_rounding by simp
qed

section \<open>C7: font resolution\<close>

text \<open>
  Claim C7. The composer tries the five candidate faces in their fixed order at the size
  \<open>int(font_size * SCALE_FACTOR)\<close>, 41 pixels for the default size of 10 points. When no
  candidate loads, the composer raises \<open>ValueError\<close> whatever the images are, also when
  none of them would open: no image is processed before. When a candidate loads, it is the
  first in the list that does, and every label of the page is written in that face at that
  size.
\<close>

theorem C7_font_resolution:
  assumes "cols \<noteq> 0" and "rows \<noteq> 0"
  shows "font_candidates =
           [''Helvetica.ttf'', ''Arial.ttf'', ''arial.ttf'', ''TImes New Roman.ttf'',
            ''DejaVuSans.ttf''] \<and>
         (binary64_rounding (rounding e) \<longrightarrow> font_size_px (rounding e) 10 = 41) \<and>
         ((\<forall>n \<in> set font_candidates. \<not> truetype e n (font_size_px (rounding e) fs)) \<longrightarrow>
            combine_images_to_page e paths rows cols s p fs = Inl ValueError) \<and>
         (\<forall>fnt. load_font e (font_size_px (rounding e) fs) font_candidates = Some fnt \<longrightarrow>
            snd fnt = font_size_px (rounding e) fs \<and>
            truetype e (fst fnt) (font_size_px (rounding e) fs) \<and>
            (\<exists>before after.
               font_candidates = before @ fst fnt # after \<and>
               (\<forall>n \<in> set before. \<not> truetype e n (font_size_px (rounding e) fs))) \<and>
            (\<forall>page pos txt g.
               combine_images_to_page e paths rows cols s p fs = Inr page \<and>
               Text pos txt g \<in> set (canvas_ops page) \<longrightarrow> g = fnt))"
proof -
  let ?sz = "font_size_px (rounding e) fs"
  have none: "(\<forall>n \<in> set font_candidates. \<not> truetype e n ?sz) \<longrightarrow>
            combine_images_to_page e paths rows cols s p fs = Inl ValueError"
  proof
    assume "\<forall>n \<in> set font_candidates. \<not> truetype e n ?sz"
    then have "load_font e ?sz font_candidates = None" by (simp add: load_font_None)
    then show "combine_images_to_page e paths rows cols s p fs = Inl ValueError"
      by (simp add: combine_cases [OF assms])
  qed
  have some: "\<forall>fnt. load_font e ?sz font_candidates = Some fnt \<longrightarrow>
            snd fnt = ?sz \<and> truetype e (fst fnt) ?sz \<and>
            (\<exists>before after.
               font_candidates = before @ fst fnt # after \<and>
               (\<forall>n \<in> set before. \<not> truetype e n ?sz)) \<and>
            (\<forall>page pos txt g.
               combine_images_to_page e paths rows cols s p fs = Inr page \<and>
               Text pos txt g \<in> set (canvas_ops page) \<longrightarrow> g = fnt)"
  proof (intro allI impI)
    fix fnt
    assume f: "load_font e ?sz font_candidates = Some fnt"
    note lf = load_font_Some [OF f]
    have tfont: "\<forall>page pos txt g.
               combine_images_to_page e paths rows cols s p fs = Inr page \<and>
               Text pos txt g \<in> set (canvas_ops page) \<longrightarrow> g = fnt"
    proof (intro allI impI)
      fix page pos label g
      assume a: "combine_images_to_page e paths rows cols s p fs = Inr page \<and>
               Text pos label g \<in> set (canvas_ops page)"
      from combine_ops [of e paths rows cols s p fs page] a f
      have "canvas_ops page =
             concat (map (\<lambda>(k, path). image_ops e rows cols s p fnt k path) (enumerate 0 paths))"
        by auto
      with a have "\<exists>x \<in> set (enumerate 0 paths).
          Text pos label g \<in> set ((\<lambda>(k, path). image_ops e rows cols s p fnt k path) x)"
        by simp
      then obtain k path where "Text pos label g \<in> set (image_ops e rows cols s p fnt k path)"
        by (auto simp del: in_set_enumerate_eq)
      then show "g = fnt" by (rule image_ops_font)
    qed
    show "snd fnt = ?sz \<and> truetype e (fst fnt) ?sz \<and>
            (\<exists>before after.
               font_candidates = before @ fst fnt # after \<and>
               (\<forall>n \<in> set before. \<not> truetype e n ?sz)) \<and>
            (\<forall>page pos txt g.
               combine_images_to_page e paths rows cols s p fs = Inr page \<and>
               Text pos txt g \<in> set (canvas_ops page) \<longrightarrow> g = fnt)"
      using lf tfont by blast
  qed
  have sz: "binary64_rounding (rounding e) \<longrightarrow> font_size_px (rounding e) 10 = 41"
    using font_size_px_default by blast
  have cands: "font_candidates =
           [''Helvetica.ttf'', ''Arial.ttf'', ''arial.ttf'', ''TImes New Roman.ttf'',
            ''DejaVuSans.ttf'']"
    by (simp add: font_candidates_def)
  show ?thesis using cands sz none some by (intro conjI)
qed

text \<open>
  Without any face the page of the default grid raises; in the example environment the
  search ends at the last candidate.
\<close>

theorem C7_font_resolution_witness:
  "(3::int) \<noteq> 0 \<and> (4::int) \<noteq> 0 \<and>
   combine_images_to_page (example_env\<lparr>truetype := (\<lambda>n sz. False)\<rparr>) [''a.png''] 4 3 0 5 10 =
     Inl ValueError \<and>
   load_font example_env (font_size_px (rounding example_env) 10) font_candidates =
     Some (''DejaVuSans.ttf'', 41)"
proof -
  let ?e = "example_env\<lparr>truetype := (\<lambda>n sz. False)\<rparr>"
  have nz: "(3::int) \<noteq> 0" "(4::int) \<noteq> 0" by simp_all
  from C7_font_resolution [OF nz, where e = ?e and fs = 10 and paths = "[''a.png'']" and s = 0 and p = 5]
  have "(\<forall>n \<in> set font_candidates. \<not> truetype ?e n (font_size_px (rounding ?e) 10)) \<longrightarrow>
          combine_images_to_page ?e [''a.png''] 4 3 0 5 10 = Inl ValueError"
    by blast
  then have a: "combine_images_to_page ?e [''a.png''] 4 3 0 5 10 = Inl ValueError" by simp
  have "font_size_px (rounding example_env) 10 = 41"
    using font_size_px_default [OF exact_rounding] by (simp add: example_env_def)
  then have b: "load_font example_env (font_size_px (rounding example_env) 10) font_candidates =
     Some (''DejaVuSans.ttf'', 41)"
    by (simp add: font_candidates_def example_env_def)
  show ?thesis using a b by simp
qed

section \<open>C8: a slice longer than the capacity\<close>

text \<open>
  Claim C8 as stated fails. On a grid of one cell, a slice of two images gives a page on
  which both are pasted and labelled, the second over the first; the page differs from
  the page of the first image alone. The image beyond the capacity is not ignored.
\<close>

theorem C8_counterexample:
  "combine_images_to_page example_env [''a.png'', ''b.png''] 1 1 0 5 10 =
     Inr \<lparr>canvas_size = (2229, 3254),
          canvas_ops =
            [Paste ''a.png'' (640, 480) (794, 1387),
             Rectangle (806, 1399, 882, 1456),
             Text (814, 1407) ''(1)'' (''DejaVuSans.ttf'', 41),
             Paste ''b.png'' (1486, 1000) (371, 1127),
             Rectangle (383, 1139, 459, 1196),
             Text (391, 1147) ''(2)'' (''DejaVuSans.ttf'', 41)]\<rparr> \<and>
   combine_images_to_page example_env (take 1 [''a.png'', ''b.png'']) 1 1 0 5 10 =
     Inr \<lparr>canvas_size = (2229, 3254),
          canvas_ops =
            [Paste ''a.png'' (640, 480) (794, 1387),
             Rectangle (806, 1399, 882, 1456),
             Text (814, 1407) ''(1)'' (''DejaVuSans.ttf'', 41)]\<rparr>"
  by code_simp

text \<open>
  Claim C8, amended. On a grid of at least one row and one column, with a face that loads
  and a slice of any length whose images all can be drawn, the composer raises nothing:
  it pastes and labels every image of the slice, in order, three drawing operations each
  and the labels counting on from the start index. The image at local index \<open>k\<close> is placed
  where an image of its size at index \<open>k mod (rows * cols)\<close> is placed, so an image beyond
  the capacity is drawn over the earlier content of its cell.
\<close>

theorem C8_slice_beyond_capacity:
  assumes "1 \<le> rows" and "1 \<le> cols"
    and "load_font e (font_size_px (rounding e) fs) font_candidates = Some fnt"
    and "\<forall>path \<in> set paths. drawable e rows cols path"
  shows "\<exists>page. combine_images_to_page e paths rows cols s p fs = Inr page \<and>
           pasted (canvas_ops page) = paths \<and>
           labels (canvas_ops page) = map (\<lambda>k. label_text (s + int k + 1)) [0..<length paths] \<and>
           length (canvas_ops page) = 3 * length paths \<and>
           (\<forall>k < length paths. \<exists>sz. image_size e (paths ! k) = Some sz \<and>
              canvas_ops page ! (3 * k) =
                Paste (paths ! k)
                  (new_width (rounding e) (img_max_width (rounding e) cols)
                     (img_max_height (rounding e) rows) (fst sz) (snd sz),
                   new_height (rounding e) (img_max_width (rounding e) cols)
                     (img_max_height (rounding e) rows) (fst sz) (snd sz))
                  (x_center (rounding e) rows cols (k mod nat (rows * cols)) sz,
                   y_center (rounding e) rows cols (k mod nat (rows * cols)) sz))"
proof -
  have nz: "cols \<noteq> 0" "rows \<noteq> 0" using assms(1,2) by simp_all
  obtain page where c: "combine_images_to_page e paths rows cols s p fs = Inr page"
    using combine_drawable [OF nz assms(3,4)] by blast
  from combine_ops [OF c] assms(3)
  have ops: "canvas_ops page =
      concat (map (\<lambda>(k, path). image_ops e rows cols s p fnt k path) (enumerate 0 paths))"
    by simp
  have a: "pasted (canvas_ops page) = paths"
    unfolding ops using assms(4) by (rule pasted_page)
  have b: "labels (canvas_ops page) = map (\<lambda>k. label_text (s + int k + 1)) [0..<length paths]"
    unfolding ops using labels_page [OF assms(4), of s p fnt 0] by simp
  have l: "length (canvas_ops page) = 3 * length paths"
    unfolding ops using assms(4) by (rule length_page)
  have d: "\<forall>k < length paths. \<exists>sz. image_size e (paths ! k) = Some sz \<and>
              canvas_ops page ! (3 * k) =
                Paste (paths ! k)
                  (new_width (rounding e) (img_max_width (rounding e) cols)
                     (img_max_height (rounding e) rows) (fst sz) (snd sz),
                   new_height (rounding e) (img_max_width (rounding e) cols)
                     (img_max_height (rounding e) rows) (fst sz) (snd sz))
                  (x_center (rounding e) rows cols (k mod nat (rows * cols)) sz,
                   y_center (rounding e) rows cols (k mod nat (rows * cols)) sz)"
  proof (intro allI impI)
    fix k
    assume k: "k < length paths"
    then have dk: "drawable e rows cols (paths ! k)" using assms(4) by simp
    have n: "canvas_ops page ! (3 * k) = hd (image_ops e rows cols s p fnt k (paths ! k))"
      unfolding ops using nth_page [OF assms(4) k, of s p fnt 0] by simp
    from image_ops_hd [OF dk, of s p fnt k] obtain sz where
      sz: "image_size e (paths ! k) = Some sz" and
      h: "hd (image_ops e rows cols s p fnt k (paths ! k)) =
             Paste (paths ! k)
               (new_width (rounding e) (img_max_width (rounding e) cols)
                  (img_max_height (rounding e) rows) (fst sz) (snd sz),
                new_height (rounding e) (img_max_width (rounding e) cols)
                  (img_max_height (rounding e) rows) (fst sz) (snd sz))
               (x_center (rounding e) rows cols k sz, y_center (rounding e) rows cols k sz)"
      by blast
    note w = centre_wrap [OF assms(1,2), of "rounding e" k sz]
    show "\<exists>sz. image_size e (paths ! k) = Some sz \<and>
              canvas_ops page ! (3 * k) =
                Paste (paths ! k)
                  (new_width (rounding e) (img_max_width (rounding e) cols)
                     (img_max_height (rounding e) rows) (fst sz) (snd sz),
                   new_height (rounding e) (img_max_width (rounding e) cols)
                     (img_max_height (rounding e) rows) (fst sz) (snd sz))
                  (x_center (rounding e) rows cols (k mod nat (rows * cols)) sz,
                   y_center (rounding e) rows cols (k mod nat (rows * cols)) sz)"
      using sz n h w by (intro exI [of _ sz]) simp
  qed
  show ?thesis using c a b l d by blast
qed

text \<open>The two images on the grid of one cell.\<close>

theorem C8_slice_beyond_capacity_witness:
  "(1::int) \<le> 1 \<and>
   load_font example_env (font_size_px (rounding example_env) 10) font_candidates =
     Some (''DejaVuSans.ttf'', 41) \<and>
   drawable example_env 1 1 ''a.png'' \<and> drawable example_env 1 1 ''b.png'' \<and>
   (\<exists>page. combine_images_to_page example_env [''a.png'', ''b.png''] 1 1 0 5 10 = Inr page \<and>
      pasted (canvas_ops page) = [''a.png'', ''b.png''] \<and>
      labels (canvas_ops page) = [''(1)'', ''(2)''] \<and>
      length (canvas_ops page) = 6)"
proof -
  have f: "font_size_px (rounding example_env) 10 = 41"
    using font_size_px_default [OF exact_rounding] by (simp add: example_env_def)
  have lf: "load_font example_env (font_size_px (rounding example_env) 10) font_candidates =
     Some (''DejaVuSans.ttf'', 41)"
    unfolding f by (simp add: font_candidates_def example_env_def)
  have d: "drawable example_env 1 1 ''a.png''" "drawable example_env 1 1 ''b.png''"
    by code_simp+
  then have da: "\<forall>path \<in> set [''a.png'', ''b.png'']. drawable example_env 1 1 path" by simp
  have one: "(1::int) \<le> 1" by simp
  from C8_slice_beyond_capacity [OF one one lf da, of 0 5]
  obtain page where
    "combine_images_to_page example_env [''a.png'', ''b.png''] 1 1 0 5 10 = Inr page"
    "pasted (canvas_ops page) = [''a.png'', ''b.png'']"
    "labels (canvas_ops page) = map (\<lambda>k. label_text (0 + int k + 1)) [0..<length [''a.png'', ''b.png'']]"
    "length (canvas_ops page) = 3 * length [''a.png'', ''b.png'']"
    by blast
  moreover have "map (\<lambda>k. label_text (0 + int k + 1)) [0..<length [''a.png'', ''b.png'']] = [''(1)'', ''(2)'']"
    by code_simp
  ultimately have "\<exists>page. combine_images_to_page example_env [''a.png'', ''b.png''] 1 1 0 5 10 = Inr page \<and>
      pasted (canvas_ops page) = [''a.png'', ''b.png''] \<and>
      labels (canvas_ops page) = [''(1)'', ''(2)''] \<and>
      length (canvas_ops page) = 6"
    by simp
  then show ?thesis using lf d by simp
qed

section \<open>C9: the temporary files after a failing run\<close>

text \<open>
  Claim C9 as stated fails on two runs on a grid of one cell. In the first the second
  image does not open: the page of the first image stays behind in the temporary
  directory. In the second the document cannot be written: both pages stay behind. The
  cleanup of lines 218 to 221 stands after the loop and after \<open>pdf.output\<close>, outside any
  handler, so an exception before it skips it.
\<close>

theorem C9_counterexample:
  "outcome (create_pdf_from_images example_env None [''a.png'', ''missing.png''] 1 1) =
     Raised OSError \<and>
   temp_dir (create_pdf_from_images example_env None [''a.png'', ''missing.png''] 1 1) =
     Some [''page_1.png''] \<and>
   outcome (create_pdf_from_images (example_env\<lparr>output_ok := False\<rparr>) None
              [''a.png'', ''b.png''] 1 1) = Raised OSError \<and>
   temp_dir (create_pdf_from_images (example_env\<lparr>output_ok := False\<rparr>) None
              [''a.png'', ''b.png''] 1 1) = Some [''page_2.png'', ''page_1.png'']"
  by code_simp

text \<open>
  Claim C9, amended, in four parts. (1) A run that finishes has written the document and
  removed the temporary directory. (2) When the document is written and every \<open>*.png\<close>
  entry of the directory, those that were in it before the run and the page files, can be
  unlinked, no \<open>*.png\<close> file, so no page file, is left; the run then finishes exactly when
  the directory held nothing but \<open>*.png\<close> entries before the run and \<open>rmdir\<close> succeeds.
  (3) When the document is written and some \<open>*.png\<close> entry \<open>g\<close> cannot be unlinked, the run
  raises \<open>OSError\<close> after the document is written, and the directory stays, with \<open>g\<close> in
  it. (4) A run that made the directory and fails before the document is written (in the
  composition of a page or in the assembly) does no cleanup: the directory stays, with
  everything that was in it and the file of every page composed so far.
\<close>

theorem C9_cleanup:
  "(outcome (create_pdf_from_images e dir xs rows cols) = Finished \<longrightarrow>
      document_written (create_pdf_from_images e dir xs rows cols) \<and>
      temp_dir (create_pdf_from_images e dir xs rows cols) = None) \<and>
   (document_written (create_pdf_from_images e dir xs rows cols) \<and>
    (\<forall>f. is_png f \<and>
         (f \<in> set (case dir of None \<Rightarrow> [] | Some ds \<Rightarrow> ds) \<or>
          (\<exists>j < length (pdf_pages (create_pdf_from_images e dir xs rows cols)).
             f = page_file (int j + 1)))
       \<longrightarrow> unlink_ok e f) \<longrightarrow>
      (\<forall>fs f. temp_dir (create_pdf_from_images e dir xs rows cols) = Some fs \<and> f \<in> set fs
         \<longrightarrow> \<not> is_png f \<and> f \<noteq> page_file k) \<and>
      (outcome (create_pdf_from_images e dir xs rows cols) = Finished \<longleftrightarrow>
         (\<forall>f \<in> set (case dir of None \<Rightarrow> [] | Some ds \<Rightarrow> ds). is_png f) \<and> rmdir_ok e)) \<and>
   (document_written (create_pdf_from_images e dir xs rows cols) \<and>
    is_png g \<and> \<not> unlink_ok e g \<and>
    (g \<in> set (case dir of None \<Rightarrow> [] | Some ds \<Rightarrow> ds) \<or>
     (\<exists>j < length (pdf_pages (create_pdf_from_images e dir xs rows cols)).
        g = page_file (int j + 1))) \<longrightarrow>
      outcome (create_pdf_from_images e dir xs rows cols) = Raised OSError \<and>
      (\<exists>fs. temp_dir (create_pdf_from_images e dir xs rows cols) = Some fs \<and> g \<in> set fs)) \<and>
   (mkdir_ok e \<and> \<not> document_written (create_pdf_from_images e dir xs rows cols) \<longrightarrow>
      (\<exists>fs. temp_dir (create_pdf_from_images e dir xs rows cols) = Some fs \<and>
         set (case dir of None \<Rightarrow> [] | Some ds \<Rightarrow> ds) \<subseteq> set fs \<and>
         (\<forall>j < length (pdf_pages (create_pdf_from_images e dir xs rows cols)).
            page_file (int j + 1) \<in> set fs)))"
proof -
  let ?r = "create_pdf_from_images e dir xs rows cols"
  let ?ds = "case dir of None \<Rightarrow> [] | Some ds \<Rightarrow> ds"
  let ?made = "\<lambda>f. f \<in> set ?ds \<or> (\<exists>j < length (pdf_pages ?r). f = page_file (int j + 1))"
  have entries: "f \<in> set files \<longleftrightarrow> ?made f"
    if "pages_loop e xs rows cols 0 ?ds [] = (err, files, pdf_pages ?r)" for err files f
    using pages_loop_entries [OF that] by auto
  have a: "outcome ?r = Finished \<longrightarrow> document_written ?r \<and> temp_dir ?r = None"
    by (auto simp: create_pdf_from_images_def Let_def split: if_splits prod.splits option.splits)
  have b: "document_written ?r \<and> (\<forall>f. is_png f \<and> ?made f \<longrightarrow> unlink_ok e f) \<longrightarrow>
      (\<forall>fs f. temp_dir ?r = Some fs \<and> f \<in> set fs \<longrightarrow> \<not> is_png f \<and> f \<noteq> page_file k) \<and>
      (outcome ?r = Finished \<longleftrightarrow> (\<forall>f \<in> set ?ds. is_png f) \<and> rmdir_ok e)"
  proof
    assume h: "document_written ?r \<and> (\<forall>f. is_png f \<and> ?made f \<longrightarrow> unlink_ok e f)"
    then have w: "document_written ?r" by blast
    from run_written [OF w] obtain files err rest where
      l: "pages_loop e xs rows cols 0 ?ds [] = (None, files, pdf_pages ?r)" and
      u: "unlink_all e (glob_png e files) files = (err, rest)" and
      t: "temp_dir ?r = (if err = None \<and> rest = [] \<and> rmdir_ok e then None else Some rest)" and
      o: "outcome ?r = (case err of Some x \<Rightarrow> Raised x
            | None \<Rightarrow> if rest = [] \<and> rmdir_ok e then Finished else Raised OSError)"
      by blast
    have "\<forall>f \<in> set (glob_png e files). unlink_ok e f"
      using h entries [OF l] by (simp add: set_glob_png)
    from unlink_all_ok [OF this, of files] u
    have err: "err = None" and
      "rest = filter (\<lambda>x. x \<notin> set (glob_png e files)) files"
      by simp_all
    moreover have "filter (\<lambda>x. x \<notin> set (glob_png e files)) files = filter (\<lambda>x. \<not> is_png x) files"
      by (rule filter_cong) (simp_all add: set_glob_png)
    ultimately have rest: "rest = filter (\<lambda>x. \<not> is_png x) files" by simp
    have left: "\<forall>fs f. temp_dir ?r = Some fs \<and> f \<in> set fs \<longrightarrow> \<not> is_png f \<and> f \<noteq> page_file k"
    proof (intro allI impI)
      fix fs f
      assume "temp_dir ?r = Some fs \<and> f \<in> set fs"
      with t have "f \<in> set rest" by (auto split: if_splits)
      then have "\<not> is_png f" using rest by simp
      then show "\<not> is_png f \<and> f \<noteq> page_file k" using is_png_page_file [of k] by auto
    qed
    have "rest = [] \<longleftrightarrow> (\<forall>f \<in> set files. is_png f)"
      unfolding rest by (simp add: filter_empty_conv)
    also have "\<dots> \<longleftrightarrow> (\<forall>f \<in> set ?ds. is_png f)"
      using entries [OF l] is_png_page_file by auto
    finally have "rest = [] \<longleftrightarrow> (\<forall>f \<in> set ?ds. is_png f)" .
    then have fin: "outcome ?r = Finished \<longleftrightarrow> (\<forall>f \<in> set ?ds. is_png f) \<and> rmdir_ok e"
      using o err by simp
    show "(\<forall>fs f. temp_dir ?r = Some fs \<and> f \<in> set fs \<longrightarrow> \<not> is_png f \<and> f \<noteq> page_file k) \<and>
      (outcome ?r = Finished \<longleftrightarrow> (\<forall>f \<in> set ?ds. is_png f) \<and> rmdir_ok e)"
      using left fin by (rule conjI)
  qed
  have c: "document_written ?r \<and> is_png g \<and> \<not> unlink_ok e g \<and> ?made g \<longrightarrow>
      outcome ?r = Raised OSError \<and> (\<exists>fs. temp_dir ?r = Some fs \<and> g \<in> set fs)"
  proof
    assume h: "document_written ?r \<and> is_png g \<and> \<not> unlink_ok e g \<and> ?made g"
    then have w: "document_written ?r" and no: "\<not> unlink_ok e g" and png: "is_png g"
      and made: "?made g"
      by blast+
    from run_written [OF w] obtain files err rest where
      l: "pages_loop e xs rows cols 0 ?ds [] = (None, files, pdf_pages ?r)" and
      u: "unlink_all e (glob_png e files) files = (err, rest)" and
      t: "temp_dir ?r = (if err = None \<and> rest = [] \<and> rmdir_ok e then None else Some rest)" and
      o: "outcome ?r = (case err of Some x \<Rightarrow> Raised x
            | None \<Rightarrow> if rest = [] \<and> rmdir_ok e then Finished else Raised OSError)"
      by blast
    have inf: "g \<in> set files" using made entries [OF l] by simp
    then have ing: "g \<in> set (glob_png e files)" using png by (simp add: set_glob_png)
    from unlink_all_refused [OF u no] inf ing
    have "g \<in> set rest" and "err = Some OSError" by blast+
    then show "outcome ?r = Raised OSError \<and> (\<exists>fs. temp_dir ?r = Some fs \<and> g \<in> set fs)"
      using t o by simp
  qed
  have d: "mkdir_ok e \<and> \<not> document_written ?r \<longrightarrow>
      (\<exists>fs. temp_dir ?r = Some fs \<and> set ?ds \<subseteq> set fs \<and>
         (\<forall>j < length (pdf_pages ?r). page_file (int j + 1) \<in> set fs))"
  proof
    assume h: "mkdir_ok e \<and> \<not> document_written ?r"
    show "\<exists>fs. temp_dir ?r = Some fs \<and> set ?ds \<subseteq> set fs \<and>
         (\<forall>j < length (pdf_pages ?r). page_file (int j + 1) \<in> set fs)"
    proof (cases "rows * cols = 0")
      case True
      then have "temp_dir ?r = Some ?ds" and "pdf_pages ?r = []"
        using h by (simp_all add: create_pdf_from_images_def Let_def)
      then show ?thesis by simp
    next
      case nz: False
      from run_not_written [OF _ _ nz, of e dir xs] h obtain err files where
        l: "pages_loop e xs rows cols 0 ?ds [] = (err, files, pdf_pages ?r)" and
        t: "temp_dir ?r = Some files"
        by blast
      from entries [OF l] have "\<forall>f. f \<in> set files \<longleftrightarrow> ?made f" by blast
      then show ?thesis using t by auto
    qed
  qed
  show ?thesis using a b c d by blast
qed

text \<open>
  Four runs in the example environment. The failing run of above keeps \<open>page_1.png\<close>. A
  run of three images on a grid of two rows, over a directory that held an older
  \<open>old.png\<close>, finishes and removes the directory. The same run over a directory that held
  \<open>notes.txt\<close> writes the document and does not finish, and no \<open>*.png\<close> file is left. A run
  of one image over a directory that holds the directory \<open>sub.png\<close> writes the document and
  then raises; \<open>sub.png\<close> stays.
\<close>

theorem C9_cleanup_witness:
  "mkdir_ok example_env \<and>
   \<not> document_written (create_pdf_from_images example_env None [''a.png'', ''missing.png''] 1 1) \<and>
   (\<exists>fs. temp_dir (create_pdf_from_images example_env None [''a.png'', ''missing.png''] 1 1) =
            Some fs \<and> page_file 1 \<in> set fs) \<and>
   outcome (create_pdf_from_images example_env (Some [''old.png''])
              [''a.png'', ''b.png'', ''c.png''] 2 1) = Finished \<and>
   temp_dir (create_pdf_from_images example_env (Some [''old.png''])
              [''a.png'', ''b.png'', ''c.png''] 2 1) = None \<and>
   document_written (create_pdf_from_images example_env (Some [''notes.txt''])
              [''a.png'', ''b.png'', ''c.png''] 2 1) \<and>
   outcome (create_pdf_from_images example_env (Some [''notes.txt''])
              [''a.png'', ''b.png'', ''c.png''] 2 1) \<noteq> Finished \<and>
   temp_dir (create_pdf_from_images example_env (Some [''notes.txt''])
              [''a.png'', ''b.png'', ''c.png''] 2 1) = Some [''notes.txt''] \<and>
   document_written (create_pdf_from_images example_env (Some [''sub.png'']) [''a.png''] 1 1) \<and>
   outcome (create_pdf_from_images example_env (Some [''sub.png'']) [''a.png''] 1 1) =
     Raised OSError \<and>
   (\<exists>fs. temp_dir (create_pdf_from_images example_env (Some [''sub.png'']) [''a.png''] 1 1) =
            Some fs \<and> ''sub.png'' \<in> set fs)"
proof -
  let ?bad = "create_pdf_from_images example_env None [''a.png'', ''missing.png''] 1 1"
  let ?good = "create_pdf_from_images example_env (Some [''old.png''])
              [''a.png'', ''b.png'', ''c.png''] 2 1"
  let ?kept = "create_pdf_from_images example_env (Some [''notes.txt''])
              [''a.png'', ''b.png'', ''c.png''] 2 1"
  let ?sub = "create_pdf_from_images example_env (Some [''sub.png'']) [''a.png''] 1 1"
  have m: "mkdir_ok example_env" by (simp add: example_env_def)
  have rm: "rmdir_ok example_env" by (simp add: example_env_def)
  have ok: "unlink_ok example_env f \<longleftrightarrow> f \<noteq> ''sub.png''" for f
    by (simp add: example_env_def)
  have p1: "page_file 1 = ''page_1.png''" by code_simp
  have p2: "page_file 2 = ''page_2.png''" by code_simp
  have two: "j < 2 \<longleftrightarrow> j = 0 \<or> j = Suc 0" for j :: nat by arith
  txt \<open>The run that fails before the document is written.\<close>
  have nw: "\<not> document_written ?bad" by code_simp
  have one: "length (pdf_pages ?bad) = 1" by code_simp
  from C9_cleanup [of example_env None "[''a.png'', ''missing.png'']" 1 1] m nw
  obtain fs where "temp_dir ?bad = Some fs"
    and "\<forall>j < length (pdf_pages ?bad). page_file (int j + 1) \<in> set fs"
    by blast
  then have bad: "\<exists>fs. temp_dir ?bad = Some fs \<and> page_file 1 \<in> set fs"
    using one by auto
  txt \<open>The run over a directory of \<open>*.png\<close> entries that can be unlinked.\<close>
  have wg: "document_written ?good" by code_simp
  have lg: "length (pdf_pages ?good) = 2" by code_simp
  have ug: "\<forall>f. is_png f \<and>
         (f \<in> set (case Some [''old.png''] of None \<Rightarrow> [] | Some ds \<Rightarrow> ds) \<or>
          (\<exists>j < length (pdf_pages ?good). f = page_file (int j + 1)))
       \<longrightarrow> unlink_ok example_env f"
    unfolding lg ok two using p1 p2 by auto
  have ag: "\<forall>f \<in> set (case Some [''old.png''] of None \<Rightarrow> [] | Some ds \<Rightarrow> ds). is_png f"
    by (simp add: is_png_def)
  from C9_cleanup [of example_env "Some [''old.png'']" "[''a.png'', ''b.png'', ''c.png'']" 2 1]
    wg ug ag rm
  have fin: "outcome ?good = Finished" by blast
  from C9_cleanup [of example_env "Some [''old.png'']" "[''a.png'', ''b.png'', ''c.png'']" 2 1] fin
  have gone: "temp_dir ?good = None" by blast
  txt \<open>The run over a directory that holds another file.\<close>
  have wk: "document_written ?kept" by code_simp
  have lk: "length (pdf_pages ?kept) = 2" by code_simp
  have tk: "temp_dir ?kept = Some [''notes.txt'']" by code_simp
  have uk: "\<forall>f. is_png f \<and>
         (f \<in> set (case Some [''notes.txt''] of None \<Rightarrow> [] | Some ds \<Rightarrow> ds) \<or>
          (\<exists>j < length (pdf_pages ?kept). f = page_file (int j + 1)))
       \<longrightarrow> unlink_ok example_env f"
    unfolding lk ok two using p1 p2 by auto
  have nk: "\<not> (\<forall>f \<in> set (case Some [''notes.txt''] of None \<Rightarrow> [] | Some ds \<Rightarrow> ds). is_png f)"
    by (simp add: is_png_def)
  from C9_cleanup [of example_env "Some [''notes.txt'']" "[''a.png'', ''b.png'', ''c.png'']" 2 1]
    wk uk nk
  have kept: "outcome ?kept \<noteq> Finished" by blast
  txt \<open>The run over a directory that holds an entry that cannot be unlinked.\<close>
  have ws: "document_written ?sub" by code_simp
  have ps: "is_png ''sub.png''" by (simp add: is_png_def)
  have ns: "\<not> unlink_ok example_env ''sub.png''" by (simp add: ok)
  have ins: "''sub.png'' \<in> set (case Some [''sub.png''] of None \<Rightarrow> [] | Some ds \<Rightarrow> ds)"
    by simp
  from C9_cleanup [of example_env "Some [''sub.png'']" "[''a.png'']" 1 1 _ "''sub.png''"]
    ws ps ns ins
  have sub: "outcome ?sub = Raised OSError \<and> (\<exists>fs. temp_dir ?sub = Some fs \<and> ''sub.png'' \<in> set fs)"
    by blast
  show ?thesis using m nw bad fin gone wk kept tk ws sub by simp
qed
end
